theory Spec2Isabelle
  imports Main "HOL-Library.AList" "HOL-Library.Char_ord" "HOL-Library.List_Lexorder"
begin

section \<open>Python values used by the scripts\<close>

text \<open>
  A Python \<open>str\<close> is modelled by its UTF-8 byte sequence, an Isabelle \<open>string\<close>.
  Splitting at the ASCII characters \<open>" "\<close>, \<open>"\n"\<close>, \<open>"}"\<close>, \<open>"/"\<close>, \<open>"-"\<close> and
  comparing strings lexicographically give the same results on the bytes as on the code
  points. A value of type \<open>str | None\<close> is a \<open>string option\<close>; an insertion-ordered
  \<open>dict\<close> is an association list with distinct keys, updated by \<open>AList.update\<close> (an
  existing key keeps its position, a new key goes to the end).
\<close>

datatype py_error = IndexError | RecursionError

text \<open>Truthiness of a \<open>str | None\<close> value: \<open>None\<close> and \<open>""\<close> are falsy.\<close>

fun truthy :: "string option \<Rightarrow> bool" where
  "truthy None = False"
| "truthy (Some s) = (s \<noteq> [])"

text \<open>\<open>s.split(sep, 1)\<close> for a one-character separator: at most one cut, at the first \<open>sep\<close>.\<close>

definition split1 :: "char \<Rightarrow> string \<Rightarrow> string list" where
  "split1 sep s =
     (if sep \<in> set s then [takeWhile (\<lambda>c. c \<noteq> sep) s, tl (dropWhile (\<lambda>c. c \<noteq> sep) s)]
      else [s])"

text \<open>\<open>s.split(sep)\<close> for a one-character separator: every \<open>sep\<close> cuts, empty pieces are kept.\<close>

fun split_char :: "char \<Rightarrow> string \<Rightarrow> string list" where
  "split_char sep [] = [[]]"
| "split_char sep (c # cs) =
     (if c = sep then [] # split_char sep cs
      else (case split_char sep cs of
              [] \<Rightarrow> [[c]]
            | w # ws \<Rightarrow> (c # w) # ws))"

text \<open>\<open>s.replace(a, b)\<close> for one-character \<open>a\<close> and \<open>b\<close>.\<close>

definition replace_char :: "char \<Rightarrow> char \<Rightarrow> string \<Rightarrow> string" where
  "replace_char a b s = map (\<lambda>c. if c = a then b else c) s"

text \<open>\<open>xs[i]\<close> for a non-negative index: out of range raises \<open>IndexError\<close>.\<close>

definition index :: "'a list \<Rightarrow> nat \<Rightarrow> py_error + 'a" where
  "index xs i = (if i < length xs then Inr (xs ! i) else Inl IndexError)"

text \<open>\<open>str.lower\<close> on a string of ASCII characters.\<close>

definition lower_char :: "char \<Rightarrow> char" where
  "lower_char c =
     (if CHR ''A'' \<le> c \<and> c \<le> CHR ''Z'' then char_of (of_char c + (32 :: nat)) else c)"

definition lower_ascii :: "string \<Rightarrow> string" where
  "lower_ascii s = map lower_char s"

section \<open>tools/svg\_indexer.py\<close>

subsection \<open>Namespace normalizer\<close>

definition NSBRACE_START :: string where
  "NSBRACE_START = ''{''"

text \<open>\<open>strip_ns\<close>, lines 24 to 28: \<open>tag.split("}", 1)[1]\<close> when the tag starts with a brace.\<close>

definition strip_ns :: "string \<Rightarrow> py_error + string" where
  "strip_ns tag =
     (if take (length NSBRACE_START) tag = NSBRACE_START
      then index (split1 (CHR ''}'') tag) 1
      else Inr tag)"

subsection \<open>Documents\<close>

text \<open>
  An \<open>ET.Element\<close>: its tag, its attribute dictionary and its children in document order.
\<close>

datatype elem = Elem (tag: string) (attrib: "string \<rightharpoonup> string") (children: "elem list")

record info =
  info_id :: "string option"
  info_classes :: "string list"
  info_tag :: string
  info_parentId :: "string option"
  info_side :: string

record counts =
  total :: int
  groups :: int
  with_id :: int
  with_class :: int

text \<open>The four accumulators that the closure \<open>rec\<close> mutates (lines 63 to 66).\<close>

record walk_state =
  st_elements :: "info list"
  st_byId :: "(string \<times> info) list"
  st_class_to_ids :: "(string \<times> string set) list"
  st_counts :: counts

definition init_state :: walk_state where
  "init_state =
     \<lparr>st_elements = [], st_byId = [], st_class_to_ids = [],
      st_counts = \<lparr>total = 0, groups = 0, with_id = 0, with_class = 0\<rparr>\<rparr>"

text \<open>The value returned by \<open>walk_svg_groups\<close> (lines 103 to 108).\<close>

record doc_index =
  elements :: "info list"
  byId :: "(string \<times> info) list"
  classToIds :: "(string \<times> string list) list"
  idx_counts :: counts

subsection \<open>Group tree walker\<close>

text \<open>Lines 71 and 72: the class attribute (absent or empty gives \<open>""\<close>), newlines turned
  into spaces, split at every space, empty pieces dropped.\<close>

definition el_classes :: "elem \<Rightarrow> string list" where
  "el_classes el =
     (let cls_raw = (case attrib el ''class'' of None \<Rightarrow> [] | Some v \<Rightarrow> v)
      in filter (\<lambda>c. c \<noteq> [])
           (split_char (CHR '' '') (replace_char (CHR 0x0A) (CHR '' '') cls_raw)))"

text \<open>\<open>class_to_ids[c].add(el_id)\<close> on a \<open>defaultdict(set)\<close>.\<close>

definition add_class_id :: "string \<Rightarrow> string \<Rightarrow> (string \<times> string set) list \<Rightarrow> (string \<times> string set) list" where
  "add_class_id el_id c m =
     AList.update c (insert el_id (case map_of m c of None \<Rightarrow> {} | Some ids \<Rightarrow> ids)) m"

text \<open>Lines 82 to 92: what the walker does with the \<open>info\<close> of a group node.\<close>

definition record_group :: "info \<Rightarrow> walk_state \<Rightarrow> walk_state" where
  "record_group e st =
     (let el_id = info_id e;
          classes = info_classes e;
          st = st\<lparr>st_elements := st_elements st @ [e]\<rparr>;
          st = st\<lparr>st_counts := (st_counts st)\<lparr>total := total (st_counts st) + 1\<rparr>\<rparr>;
          st = st\<lparr>st_counts := (st_counts st)\<lparr>groups := groups (st_counts st) + 1\<rparr>\<rparr>;
          st = (if truthy el_id
                then st\<lparr>st_counts := (st_counts st)\<lparr>with_id := with_id (st_counts st) + 1\<rparr>,
                        st_byId := AList.update (the el_id) e (st_byId st)\<rparr>
                else st)
      in if classes \<noteq> []
         then (let st = st\<lparr>st_counts := (st_counts st)\<lparr>with_class := with_class (st_counts st) + 1\<rparr>\<rparr>
               in if truthy el_id
                  then st\<lparr>st_class_to_ids := fold (add_class_id (the el_id)) classes (st_class_to_ids st)\<rparr>
                  else st)
         else st)"

text \<open>
  The closure \<open>rec\<close> (lines 68 to 96) with the accumulators passed explicitly, and the
  loop over the children. An \<open>IndexError\<close> of \<open>strip_ns\<close> ends the walk.
\<close>

fun rec :: "string \<Rightarrow> elem \<Rightarrow> string option \<Rightarrow> walk_state \<Rightarrow> py_error + walk_state"
  and rec_children :: "string \<Rightarrow> elem list \<Rightarrow> string option \<Rightarrow> walk_state \<Rightarrow> py_error + walk_state"
where
  "rec side_label (Elem t a cs) parent_id st =
     (case strip_ns t of
        Inl e \<Rightarrow> Inl e
      | Inr tg \<Rightarrow>
          (let el_id = a ''id'';
               classes = el_classes (Elem t a cs);
               st' = (if tg = ''g''
                      then record_group
                             \<lparr>info_id = el_id, info_classes = classes, info_tag = tg,
                              info_parentId = parent_id, info_side = side_label\<rparr> st
                      else st)
           in rec_children side_label cs (if truthy el_id then el_id else parent_id) st'))"
| "rec_children side_label [] parent_id st = Inr st"
| "rec_children side_label (child # rest) parent_id st =
     (case rec side_label child parent_id st of
        Inl e \<Rightarrow> Inl e
      | Inr st' \<Rightarrow> rec_children side_label rest parent_id st')"

text \<open>Line 101: keys sorted, each set turned into a sorted list.\<close>

definition class_to_ids_json :: "(string \<times> string set) list \<Rightarrow> (string \<times> string list) list" where
  "class_to_ids_json m =
     fold (\<lambda>(k, v) d. AList.update k (sorted_list_of_set v) d) (sort_key fst m) []"

definition walk_svg_groups :: "elem \<Rightarrow> string \<Rightarrow> py_error + doc_index" where
  "walk_svg_groups root side_label =
     (case rec side_label root None init_state of
        Inl e \<Rightarrow> Inl e
      | Inr st \<Rightarrow>
          Inr \<lparr>elements = st_elements st, byId = st_byId st,
               classToIds = class_to_ids_json (st_class_to_ids st),
               idx_counts = st_counts st\<rparr>)"

subsection \<open>The walker under the recursion limit\<close>

text \<open>
  The interpreter allows only so many nested calls. \<open>rec_limited k\<close> is the closure \<open>rec\<close>
  when \<open>k\<close> more nested calls of \<open>rec\<close> fit under the limit: with none left the call
  raises \<open>RecursionError\<close> before it does anything, otherwise it runs the body of \<open>rec\<close>
  and its children have one call less.
\<close>

fun rec_limited :: "nat \<Rightarrow> string \<Rightarrow> elem \<Rightarrow> string option \<Rightarrow> walk_state \<Rightarrow> py_error + walk_state"
  and rec_limited_children :: "nat \<Rightarrow> string \<Rightarrow> elem list \<Rightarrow> string option \<Rightarrow> walk_state \<Rightarrow> py_error + walk_state"
where
  "rec_limited 0 side_label el parent_id st = Inl RecursionError"
| "rec_limited (Suc k) side_label (Elem t a cs) parent_id st =
     (case strip_ns t of
        Inl e \<Rightarrow> Inl e
      | Inr tg \<Rightarrow>
          (let el_id = a ''id'';
               classes = el_classes (Elem t a cs);
               st' = (if tg = ''g''
                      then record_group
                             \<lparr>info_id = el_id, info_classes = classes, info_tag = tg,
                              info_parentId = parent_id, info_side = side_label\<rparr> st
                      else st)
           in rec_limited_children k side_label cs (if truthy el_id then el_id else parent_id) st'))"
| "rec_limited_children k side_label [] parent_id st = Inr st"
| "rec_limited_children k side_label (child # rest) parent_id st =
     (case rec_limited k side_label child parent_id st of
        Inl e \<Rightarrow> Inl e
      | Inr st' \<Rightarrow> rec_limited_children k side_label rest parent_id st')"

definition walk_svg_groups_limited :: "nat \<Rightarrow> elem \<Rightarrow> string \<Rightarrow> py_error + doc_index" where
  "walk_svg_groups_limited k root side_label =
     (case rec_limited k side_label root None init_state of
        Inl e \<Rightarrow> Inl e
      | Inr st \<Rightarrow>
          Inr \<lparr>elements = st_elements st, byId = st_byId st,
               classToIds = class_to_ids_json (st_class_to_ids st),
               idx_counts = st_counts st\<rparr>)"


subsection \<open>Document loader\<close>

text \<open>
  What the loader and \<open>main\<close> ask of the world outside the program:
  \<^item> \<open>path_exists\<close>: \<open>os.path.exists\<close>;
  \<^item> \<open>open_error\<close>: the message of the \<open>OSError\<close> that opening and reading the file
    raises (permission denied, a directory, ...), \<open>None\<close> when the file can be read;
  \<^item> \<open>file_bytes\<close>: the content of the file;
  \<^item> \<open>xml_parse\<close>: the XML parser on a content, which returns the root element or raises
    \<open>ParseError\<close> with a message when the content is not well-formed;
  \<^item> \<open>str_lower\<close>: \<open>str.lower\<close>, whose Unicode case table is not part of the repository;
  \<^item> \<open>write_output\<close>: the writing of the output file (\<open>os.makedirs\<close>, \<open>open\<close>,
    \<open>json.dump\<close>), which succeeds or raises;
  \<^item> \<open>max_depth\<close>: the number of nested calls of \<open>rec\<close> that fit under the interpreter's
    recursion limit.
\<close>

datatype write_failure = NotCreated | Partial

record env =
  path_exists :: "string \<Rightarrow> bool"
  open_error :: "string \<Rightarrow> string option"
  file_bytes :: "string \<Rightarrow> string"
  xml_parse :: "string \<Rightarrow> string + elem"
  str_lower :: "string \<Rightarrow> string"
  write_output :: "string \<Rightarrow> write_failure option"
  max_depth :: nat

text \<open>\<open>ET.parse(path).getroot()\<close>: the file is opened and read, then its content parsed;
  either step can raise.\<close>

definition et_parse :: "env \<Rightarrow> string \<Rightarrow> string + elem" where
  "et_parse w path =
     (case open_error w path of
        Some e \<Rightarrow> Inl e
      | None \<Rightarrow> xml_parse w (file_bytes w path))"


text \<open>A line printed on the error stream followed by \<open>sys.exit(status)\<close>.\<close>

datatype abort = Abort (stderr_line: string) (status: int)

text \<open>\<open>os.path.basename\<close> on POSIX paths: what follows the last slash.\<close>

definition basename :: "string \<Rightarrow> string" where
  "basename p = rev (takeWhile (\<lambda>c. c \<noteq> CHR ''/'') (rev p))"

text \<open>\<open>sub in s\<close> on strings.\<close>

fun contains :: "string \<Rightarrow> string \<Rightarrow> bool" where
  "contains sub [] = (sub = [])"
| "contains sub (c # cs) = (take (length sub) (c # cs) = sub \<or> contains sub cs)"

text \<open>\<open>parse_svg\<close>, lines 30 to 50. The arrow of the first message is U+2192.\<close>

definition parse_svg :: "env \<Rightarrow> string \<Rightarrow> string option \<Rightarrow> abort + (elem \<times> string)" where
  "parse_svg w path side_hint =
     (if \<not> path_exists w path
      then Inl (Abort (''ERROR: file not found '' @ [CHR 0xE2, CHR 0x86, CHR 0x92] @ '' '' @ path) 2)
      else (case et_parse w path of
              Inl e \<Rightarrow> Inl (Abort (''ERROR: failed to parse '' @ path @ '': '' @ e) 2)
            | Inr root \<Rightarrow>
                (let name = str_lower w (basename path);
                     side = (if truthy side_hint then the side_hint
                             else if contains ''back'' name \<or> contains ''posterior'' name
                                  then ''back''
                                  else ''front'')
                 in Inr (root, side))))"

subsection \<open>The run\<close>

definition FRONT_SVG :: string where
  "FRONT_SVG = ''/Users/dimitarmihaylov/dev/WRKT/torso.svg''"

definition BACK_SVG :: string where
  "BACK_SVG = ''/Users/dimitarmihaylov/dev/WRKT/torso_back.svg''"






subsection \<open>The traversal as a list of visits\<close>

text \<open>
  The specification's view of the walk: every node of the document in pre-order, each
  with the chain of its ancestors (nearest first). The parent identity of a node is the
  id of the nearest ancestor, of any node type, whose id is non-empty.
\<close>

definition is_group :: "elem \<Rightarrow> bool" where
  "is_group el = (strip_ns (tag el) = Inr ''g'')"

fun nearest_id :: "elem list \<Rightarrow> string option" where
  "nearest_id [] = None"
| "nearest_id (a # anc) = (if truthy (attrib a ''id'') then attrib a ''id'' else nearest_id anc)"

fun visits :: "elem list \<Rightarrow> elem \<Rightarrow> (elem list \<times> elem) list" where
  "visits anc (Elem t a cs) = (anc, Elem t a cs) # concat (map (visits (Elem t a cs # anc)) cs)"

definition mk_info :: "string \<Rightarrow> elem list \<times> elem \<Rightarrow> info" where
  "mk_info side_label v =
     \<lparr>info_id = attrib (snd v) ''id'', info_classes = el_classes (snd v), info_tag = ''g'',
      info_parentId = nearest_id (fst v), info_side = side_label\<rparr>"

definition group_infos :: "string \<Rightarrow> elem list \<Rightarrow> elem \<Rightarrow> info list" where
  "group_infos side_label anc el =
     map (mk_info side_label) (filter (\<lambda>v. is_group (snd v)) (visits anc el))"

text \<open>The ids of the recorded elements that have a non-empty id and carry the class token \<open>c\<close>.\<close>

definition ids_with_class :: "info list \<Rightarrow> string \<Rightarrow> string set" where
  "ids_with_class xs c =
     {s. s \<noteq> [] \<and> (\<exists>e\<in>set xs. info_id e = Some s \<and> c \<in> set (info_classes e))}"

text \<open>
  The documents on which \<open>strip_ns\<close> raises nowhere: no tag starts with a brace without
  containing a closing one. Every tree that \<open>ET.parse\<close> builds is of this kind.
\<close>

fun well_tagged :: "elem \<Rightarrow> bool" where
  "well_tagged (Elem t a cs) =
     ((case strip_ns t of Inl e \<Rightarrow> False | Inr tg \<Rightarrow> True) \<and> (\<forall>c\<in>set cs. well_tagged c))"

subsection \<open>Splitting a class attribute into tokens\<close>

text \<open>
  The tokens of a string: its maximal runs of characters that are not separators, in
  source order (what \<open>str.split()\<close> returns when the separators are the whitespace
  characters).
\<close>

function tokens :: "(char \<Rightarrow> bool) \<Rightarrow> string \<Rightarrow> string list" where
  "tokens sep s =
     (case dropWhile sep s of
        [] \<Rightarrow> []
      | c # cs \<Rightarrow> takeWhile (\<lambda>x. \<not> sep x) (c # cs) # tokens sep (dropWhile (\<lambda>x. \<not> sep x) (c # cs)))"
  by pat_completeness auto
termination
proof (relation "measure (\<lambda>(sep, s). length s)")
  show "wf (measure (\<lambda>(sep, s). length s))" by simp
next
  fix sep :: "char \<Rightarrow> bool" and s :: string and c cs
  assume d: "dropWhile sep s = c # cs"
  then have "\<not> sep c" using hd_dropWhile [of sep s] by auto
  then have "length (dropWhile (\<lambda>x. \<not> sep x) (c # cs)) \<le> length cs"
    by (simp add: length_dropWhile_le)
  also have "length cs < length (dropWhile sep s)" by (simp add: d)
  also have "\<dots> \<le> length s" by (rule length_dropWhile_le)
  finally show "((sep, dropWhile (\<lambda>x. \<not> sep x) (c # cs)), (sep, s)) \<in> measure (\<lambda>(sep, s). length s)"
    by simp
qed

text \<open>The ASCII whitespace characters: space, tab, line feed, vertical tab, form feed,
  carriage return.\<close>

definition is_whitespace :: "char \<Rightarrow> bool" where
  "is_whitespace c = (c \<in> {CHR '' '', CHR 0x09, CHR 0x0A, CHR 0x0B, CHR 0x0C, CHR 0x0D})"

text \<open>The two characters at which the walker cuts a class attribute.\<close>

definition class_sep :: "char \<Rightarrow> bool" where
  "class_sep c = (c = CHR '' '' \<or> c = CHR 0x0A)"

subsection \<open>Example documents\<close>

text \<open>\<open><g id="A"><g><g id="C"/></g></g>\<close>\<close>

definition nested_doc :: elem where
  "nested_doc =
     Elem ''g'' [''id'' \<mapsto> ''A'']
       [Elem ''g'' Map.empty
          [Elem ''g'' [''id'' \<mapsto> ''C''] []]]"

text \<open>
  An \<open>svg\<close> root in the SVG namespace with four groups: two share the id \<open>m\<close>, one has
  classes and no id, one has an id and a class attribute with a doubled space.
\<close>

definition dup_doc :: elem where
  "dup_doc =
     Elem ''{http://www.w3.org/2000/svg}svg'' Map.empty
       [Elem ''{http://www.w3.org/2000/svg}g'' [''id'' \<mapsto> ''m'', ''class'' \<mapsto> ''b a''] [],
        Elem ''{http://www.w3.org/2000/svg}g'' [''id'' \<mapsto> ''m'', ''class'' \<mapsto> ''c b''] [],
        Elem ''{http://www.w3.org/2000/svg}g'' [''class'' \<mapsto> ''z''] [],
        Elem ''{http://www.w3.org/2000/svg}g'' [''id'' \<mapsto> ''k'', ''class'' \<mapsto> ''b  a''] []]"

text \<open>\<open><g id="A"><g id="" class="x"><g id="B" class="y"/></g></g>\<close>\<close>

definition empty_id_doc :: elem where
  "empty_id_doc =
     Elem ''g'' [''id'' \<mapsto> ''A'']
       [Elem ''g'' [''id'' \<mapsto> '''', ''class'' \<mapsto> ''x'']
          [Elem ''g'' [''id'' \<mapsto> ''B'', ''class'' \<mapsto> ''y''] []]]"

text \<open>\<open><g class="a&#9;b"/>\<close>: a class attribute with a tab, written as a character reference.\<close>

definition tab_class :: string where
  "tab_class = ''a'' @ [CHR 0x09] @ ''b''"

definition tab_doc :: elem where
  "tab_doc = Elem ''g'' [''class'' \<mapsto> tab_class] []"

definition tab_index :: doc_index where
  "tab_index =
     \<lparr>elements =
        [\<lparr>info_id = None, info_classes = [tab_class], info_tag = ''g'',
          info_parentId = None, info_side = ''front''\<rparr>],
      byId = [], classToIds = [],
      idx_counts = \<lparr>total = 1, groups = 1, with_id = 0, with_class = 1\<rparr>\<rparr>"

text \<open>A class attribute with a doubled space and a line feed.\<close>

definition spaced_doc :: elem where
  "spaced_doc = Elem ''g'' [''class'' \<mapsto> ''x  y'' @ [CHR 0x0A] @ ''z''] []"

text \<open>The indices that the walker returns for the example documents.\<close>

definition nested_index :: doc_index where
  "nested_index =
     \<lparr>elements =
        [\<lparr>info_id = Some ''A'', info_classes = [], info_tag = ''g'',
          info_parentId = None, info_side = ''front''\<rparr>,
         \<lparr>info_id = None, info_classes = [], info_tag = ''g'',
          info_parentId = Some ''A'', info_side = ''front''\<rparr>,
         \<lparr>info_id = Some ''C'', info_classes = [], info_tag = ''g'',
          info_parentId = Some ''A'', info_side = ''front''\<rparr>],
      byId =
        [(''A'', \<lparr>info_id = Some ''A'', info_classes = [], info_tag = ''g'',
                  info_parentId = None, info_side = ''front''\<rparr>),
         (''C'', \<lparr>info_id = Some ''C'', info_classes = [], info_tag = ''g'',
                  info_parentId = Some ''A'', info_side = ''front''\<rparr>)],
      classToIds = [],
      idx_counts = \<lparr>total = 3, groups = 3, with_id = 2, with_class = 0\<rparr>\<rparr>"

definition dup_index :: doc_index where
  "dup_index =
     \<lparr>elements =
        [\<lparr>info_id = Some ''m'', info_classes = [''b'', ''a''], info_tag = ''g'',
          info_parentId = None, info_side = ''back''\<rparr>,
         \<lparr>info_id = Some ''m'', info_classes = [''c'', ''b''], info_tag = ''g'',
          info_parentId = None, info_side = ''back''\<rparr>,
         \<lparr>info_id = None, info_classes = [''z''], info_tag = ''g'',
          info_parentId = None, info_side = ''back''\<rparr>,
         \<lparr>info_id = Some ''k'', info_classes = [''b'', ''a''], info_tag = ''g'',
          info_parentId = None, info_side = ''back''\<rparr>],
      byId =
        [(''m'', \<lparr>info_id = Some ''m'', info_classes = [''c'', ''b''], info_tag = ''g'',
                  info_parentId = None, info_side = ''back''\<rparr>),
         (''k'', \<lparr>info_id = Some ''k'', info_classes = [''b'', ''a''], info_tag = ''g'',
                  info_parentId = None, info_side = ''back''\<rparr>)],
      classToIds = [(''a'', [''k'', ''m'']), (''b'', [''k'', ''m'']), (''c'', [''m''])],
      idx_counts = \<lparr>total = 4, groups = 4, with_id = 3, with_class = 4\<rparr>\<rparr>"

definition empty_id_index :: doc_index where
  "empty_id_index =
     \<lparr>elements =
        [\<lparr>info_id = Some ''A'', info_classes = [], info_tag = ''g'',
          info_parentId = None, info_side = ''front''\<rparr>,
         \<lparr>info_id = Some '''', info_classes = [''x''], info_tag = ''g'',
          info_parentId = Some ''A'', info_side = ''front''\<rparr>,
         \<lparr>info_id = Some ''B'', info_classes = [''y''], info_tag = ''g'',
          info_parentId = Some ''A'', info_side = ''front''\<rparr>],
      byId =
        [(''A'', \<lparr>info_id = Some ''A'', info_classes = [], info_tag = ''g'',
                  info_parentId = None, info_side = ''front''\<rparr>),
         (''B'', \<lparr>info_id = Some ''B'', info_classes = [''y''], info_tag = ''g'',
                  info_parentId = Some ''A'', info_side = ''front''\<rparr>)],
      classToIds = [(''y'', [''B''])],
      idx_counts = \<lparr>total = 3, groups = 3, with_id = 2, with_class = 2\<rparr>\<rparr>"

subsection \<open>Example worlds\<close>

text \<open>
  In \<open>good_world\<close> every path exists and can be read, every file holds the nested example
  document, the output can be written and the recursion limit leaves room for 996 nested
  calls. In \<open>missing_world\<close> only the front diagram exists; in \<open>broken_world\<close> the back
  diagram is not well-formed; in \<open>locked_world\<close> the back diagram is well-formed but
  cannot be read; in \<open>shallow_world\<close> the recursion limit leaves room for two nested
  calls only.
\<close>

definition nested_xml :: string where
  \<open>nested_xml = ''<g id="A"><g><g id="C"/></g></g>''\<close>

definition good_world :: env where
  "good_world =
     \<lparr>path_exists = (\<lambda>p. True), open_error = (\<lambda>p. None), file_bytes = (\<lambda>p. nested_xml),
      xml_parse = (\<lambda>s. if s = nested_xml then Inr nested_doc
                          else Inl ''mismatched tag: line 1, column 10''),
      str_lower = lower_ascii, write_output = (\<lambda>p. None), max_depth = 996\<rparr>"





section \<open>make\_media\_json.py and xlsx\_links\_to\_json.py\<close>

text \<open>
  Both scripts have a function \<open>slugify\<close>. Both start with
  \<open>unicodedata.normalize("NFKD", s).encode("ascii", "ignore").decode("ascii")\<close>. The table
  of Unicode decompositions is not part of the repository: the normalization is a
  parameter \<open>nfkd\<close>. Dropping the non-ASCII code points drops the bytes from 128 on.
\<close>

definition ascii_ignore :: "string \<Rightarrow> string" where
  "ascii_ignore s = filter (\<lambda>c. of_char c < (128 :: nat)) s"

text \<open>The character classes \<open>[a-z0-9]\<close> and \<open>[A-Za-z0-9]\<close>.\<close>

definition is_lower_alnum :: "char \<Rightarrow> bool" where
  "is_lower_alnum c =
     (CHR ''a'' \<le> c \<and> c \<le> CHR ''z'' \<or> CHR ''0'' \<le> c \<and> c \<le> CHR ''9'')"

definition is_alnum :: "char \<Rightarrow> bool" where
  "is_alnum c =
     (CHR ''A'' \<le> c \<and> c \<le> CHR ''Z'' \<or> CHR ''a'' \<le> c \<and> c \<le> CHR ''z'' \<or>
      CHR ''0'' \<le> c \<and> c \<le> CHR ''9'')"

text \<open>The ASCII characters that \<open>str.strip()\<close> removes: tab to carriage return, the four
  separators 0x1C to 0x1F, and space.\<close>

definition py_isspace :: "char \<Rightarrow> bool" where
  "py_isspace c =
     (CHR 0x09 \<le> c \<and> c \<le> CHR 0x0D \<or> CHR 0x1C \<le> c \<and> c \<le> CHR 0x1F \<or> c = CHR '' '')"

text \<open>\<open>re.sub(r"[...]+", "-", s)\<close> for a character class \<open>p\<close>: every maximal run of
  characters of the class becomes one hyphen.\<close>

function sub_runs :: "(char \<Rightarrow> bool) \<Rightarrow> string \<Rightarrow> string" where
  "sub_runs p [] = []"
| "sub_runs p (c # cs) =
     (if p c then CHR ''-'' # sub_runs p (dropWhile p cs) else c # sub_runs p cs)"
  by pat_completeness auto
termination
  by (relation "measure (\<lambda>(p, s). length s)") (auto simp: length_dropWhile_le less_Suc_eq_le)

text \<open>\<open>re.sub(r"-{2,}", "-", s)\<close>: every run of two or more hyphens becomes one hyphen.\<close>

function sub_dashes :: "string \<Rightarrow> string" where
  "sub_dashes [] = []"
| "sub_dashes (c # cs) =
     (if c = CHR ''-'' \<and> take 1 cs = ''-''
      then CHR ''-'' # sub_dashes (dropWhile (\<lambda>x. x = CHR ''-'') cs)
      else c # sub_dashes cs)"
  by pat_completeness auto
termination
  by (relation "measure length") (auto simp: length_dropWhile_le less_Suc_eq_le)

text \<open>\<open>s.strip()\<close> and \<open>s.strip("-")\<close>: the characters of a class removed at both ends.\<close>

definition rstrip_chars :: "(char \<Rightarrow> bool) \<Rightarrow> string \<Rightarrow> string" where
  "rstrip_chars p s = rev (dropWhile p (rev s))"

definition strip_chars :: "(char \<Rightarrow> bool) \<Rightarrow> string \<Rightarrow> string" where
  "strip_chars p s = rstrip_chars p (dropWhile p s)"

text \<open>\<open>slugify\<close> of make\_media\_json.py, lines 9 to 13.\<close>

definition slugify_csv :: "(string \<Rightarrow> string) \<Rightarrow> string \<Rightarrow> string" where
  "slugify_csv nfkd s =
     (let s = ascii_ignore (nfkd s);
          s = lower_ascii s;
          s = strip_chars (\<lambda>c. c = CHR ''-'') (sub_runs (\<lambda>c. \<not> is_lower_alnum c) s)
      in s)"

text \<open>\<open>slugify\<close> of xlsx\_links\_to\_json.py, lines 6 to 9.\<close>

definition slugify_xlsx :: "(string \<Rightarrow> string) \<Rightarrow> string \<Rightarrow> string" where
  "slugify_xlsx nfkd s =
     (let s = ascii_ignore (nfkd s);
          s = sub_runs (\<lambda>c. \<not> is_alnum c) (lower_ascii (strip_chars py_isspace s))
      in strip_chars (\<lambda>c. c = CHR ''-'') (sub_dashes s))"

section \<open>Properties of the walker\<close>

text \<open>A successful walk records exactly the group visits, in pre-order.\<close>

lemma rec_fold_aux:
  "(\<forall>anc st'. parent_id = nearest_id anc \<longrightarrow> rec side_label el parent_id st = Inr st' \<longrightarrow>
       st' = fold record_group (group_infos side_label anc el) st)"
  "(\<forall>anc st'. parent_id = nearest_id anc \<longrightarrow> rec_children side_label cs parent_id st = Inr st' \<longrightarrow>
       st' = fold record_group (concat (map (group_infos side_label anc) cs)) st)"
proof (induction side_label el parent_id st and side_label cs parent_id st rule: rec_rec_children.induct)
  case (1 side_label t a cs parent_id st)
  show ?case
  proof (intro allI impI)
    fix anc st'
    assume p: "parent_id = nearest_id anc"
      and r: "rec side_label (Elem t a cs) parent_id st = Inr st'"
    from r obtain tg where tg: "strip_ns t = Inr tg"
      by (cases "strip_ns t") auto
    define inf0 where "inf0 = \<lparr>info_id = a ''id'', info_classes = el_classes (Elem t a cs), info_tag = tg,
                              info_parentId = parent_id, info_side = side_label\<rparr>"
    define st1 where "st1 = (if tg = ''g'' then record_group inf0 st else st)"
    define p' where "p' = (if truthy (a ''id'') then a ''id'' else parent_id)"
    have r': "rec_children side_label cs p' st1 = Inr st'"
      using r tg unfolding st1_def inf0_def p'_def by (simp add: Let_def cong: if_cong)
    have p'n: "p' = nearest_id (Elem t a cs # anc)"
      by (simp add: p'_def p)
    have ih: "st' = fold record_group (concat (map (group_infos side_label (Elem t a cs # anc)) cs)) st1"
      using "1.IH"[OF tg refl refl, folded inf0_def, folded st1_def, folded p'_def] p'n r' by blast
    have gi: "group_infos side_label anc (Elem t a cs) =
        (if tg = ''g'' then [inf0] else []) @ concat (map (group_infos side_label (Elem t a cs # anc)) cs)"
      unfolding group_infos_def [abs_def]
      by (simp add: is_group_def tg mk_info_def inf0_def p filter_concat map_concat comp_def)
    show "st' = fold record_group (group_infos side_label anc (Elem t a cs)) st"
      by (simp add: gi ih st1_def)
  qed
next
  case (2 side_label parent_id st)
  show ?case by simp
next
  case (3 side_label child rest parent_id st)
  show ?case
  proof (intro allI impI)
    fix anc st'
    assume p: "parent_id = nearest_id anc"
      and r: "rec_children side_label (child # rest) parent_id st = Inr st'"
    from r obtain st1 where s1: "rec side_label child parent_id st = Inr st1"
      by (cases "rec side_label child parent_id st") auto
    with r have r2: "rec_children side_label rest parent_id st1 = Inr st'" by simp
    have a: "st1 = fold record_group (group_infos side_label anc child) st"
      using "3.IH"(1) p s1 by blast
    have b: "st' = fold record_group (concat (map (group_infos side_label anc) rest)) st1"
      using "3.IH"(2)[OF s1] p r2 by blast
    show "st' = fold record_group (concat (map (group_infos side_label anc) (child # rest))) st"
      by (simp add: a b)
  qed
qed


lemma rec_fold:
  assumes "rec side_label el (nearest_id anc) st = Inr st'"
  shows "st' = fold record_group (group_infos side_label anc el) st"
  using rec_fold_aux(1) assms by blast

text \<open>What one recorded group does to each accumulator, and what a run of them does.\<close>

lemma elements_record_group: "st_elements (record_group e st) = st_elements st @ [e]"
  by (simp add: record_group_def Let_def)

lemma counts_record_group:
  "total (st_counts (record_group e st)) = total (st_counts st) + 1"
  "groups (st_counts (record_group e st)) = groups (st_counts st) + 1"
  "with_id (st_counts (record_group e st)) = with_id (st_counts st) + (if truthy (info_id e) then 1 else 0)"
  "with_class (st_counts (record_group e st)) = with_class (st_counts st) + (if info_classes e \<noteq> [] then 1 else 0)"
  by (simp_all add: record_group_def Let_def)

lemma byId_record_group:
  "st_byId (record_group e st) =
     (if truthy (info_id e) then AList.update (the (info_id e)) e (st_byId st) else st_byId st)"
  by (simp add: record_group_def Let_def)

lemma class_to_ids_record_group:
  "st_class_to_ids (record_group e st) =
     (if truthy (info_id e) then fold (add_class_id (the (info_id e))) (info_classes e) (st_class_to_ids st)
      else st_class_to_ids st)"
  by (simp add: record_group_def Let_def)

lemma elements_fold: "st_elements (fold record_group xs st) = st_elements st @ xs"
  by (induction xs arbitrary: st) (simp_all add: elements_record_group)

lemma counts_fold:
  "total (st_counts (fold record_group xs st)) = total (st_counts st) + int (length xs)"
  "groups (st_counts (fold record_group xs st)) = groups (st_counts st) + int (length xs)"
  "with_id (st_counts (fold record_group xs st)) =
     with_id (st_counts st) + int (length (filter (\<lambda>e. truthy (info_id e)) xs))"
  "with_class (st_counts (fold record_group xs st)) =
     with_class (st_counts st) + int (length (filter (\<lambda>e. info_classes e \<noteq> []) xs))"
  by (induction xs arbitrary: st) (simp_all add: counts_record_group)

lemma byId_fold:
  "map_of (st_byId (fold record_group xs st)) s =
     (case List.find (\<lambda>e. truthy (info_id e) \<and> info_id e = Some s) (rev xs) of
        Some e \<Rightarrow> Some e
      | None \<Rightarrow> map_of (st_byId st) s)"
proof (induction xs rule: rev_induct)
  case Nil
  show ?case by simp
next
  case (snoc x xs)
  show ?case
  proof (cases "truthy (info_id x)")
    case True
    then obtain k where k: "info_id x = Some k" by (cases "info_id x") auto
    show ?thesis using snoc True k
      by (simp add: byId_record_group update_conv')
  next
    case False
    then show ?thesis using snoc by (simp add: byId_record_group)
  qed
qed

lemma find_rev_last:
  assumes "x \<in> set xs" "P x"
  shows "List.find P (rev xs) = Some (last (filter P xs))"
  using assms
proof (induction xs rule: rev_induct)
  case Nil
  then show ?case by simp
next
  case (snoc y ys)
  show ?case
  proof (cases "P y")
    case True
    then show ?thesis by simp
  next
    case False
    with snoc show ?thesis by auto
  qed
qed

lemma walk_fold:
  assumes "walk_svg_groups root side_label = Inr idx"
  shows "\<exists>st. st = fold record_group (group_infos side_label [] root) init_state \<and>
              elements idx = st_elements st \<and> byId idx = st_byId st \<and>
              classToIds idx = class_to_ids_json (st_class_to_ids st) \<and>
              idx_counts idx = st_counts st"
proof -
  from assms obtain st where r: "rec side_label root None init_state = Inr st"
    by (cases "rec side_label root None init_state") (auto simp: walk_svg_groups_def)
  have "rec side_label root (nearest_id []) init_state = Inr st" using r by simp
  then have "st = fold record_group (group_infos side_label [] root) init_state"
    by (rule rec_fold)
  moreover have "idx = \<lparr>elements = st_elements st, byId = st_byId st,
        classToIds = class_to_ids_json (st_class_to_ids st), idx_counts = st_counts st\<rparr>"
    using assms r by (simp add: walk_svg_groups_def)
  ultimately show ?thesis by simp
qed

lemma walk_elements:
  assumes "walk_svg_groups root side_label = Inr idx"
  shows "elements idx = group_infos side_label [] root"
  using walk_fold [OF assms] by (simp add: elements_fold init_state_def)

text \<open>The walks of the example documents, evaluated.\<close>

lemma nested_doc_walk: "walk_svg_groups nested_doc ''front'' = Inr nested_index"
  unfolding nested_doc_def nested_index_def by code_simp

lemma dup_doc_walk: "walk_svg_groups dup_doc ''back'' = Inr dup_index"
  unfolding dup_doc_def dup_index_def by code_simp

lemma empty_id_doc_walk: "walk_svg_groups empty_id_doc ''front'' = Inr empty_id_index"
  unfolding empty_id_doc_def empty_id_index_def by code_simp

subsection \<open>Parent identity\<close>

text \<open>
  C1. The parent identity that reaches a node is the id of its nearest ancestor with a
  non-empty id, whatever the ancestor's tag: an ancestor passes its own id to its children
  when that id is non-empty and the identity it inherited otherwise (\<open>nearest_id\<close>).
  The recorded elements are the group nodes in pre-order, each with that parent identity.
  For \<open><g id="A"><g><g id="C"/></g></g>\<close> the innermost element has parentId \<open>"A"\<close>.
\<close>

theorem parent_identity_propagation:
  "(walk_svg_groups root side_label = Inr idx \<longrightarrow>
      elements idx =
        map (mk_info side_label) (filter (\<lambda>v. is_group (snd v)) (visits [] root)))
   \<and> (\<exists>idx'. walk_svg_groups nested_doc ''front'' = Inr idx' \<and>
          info_parentId (last (elements idx')) = Some ''A'')"
proof (intro conjI impI)
  assume "walk_svg_groups root side_label = Inr idx"
  then show "elements idx =
      map (mk_info side_label) (filter (\<lambda>v. is_group (snd v)) (visits [] root))"
    by (simp add: walk_elements group_infos_def)
next
  have "info_parentId (last (elements nested_index)) = Some ''A''"
    by (simp add: nested_index_def)
  with nested_doc_walk
  show "\<exists>idx'. walk_svg_groups nested_doc ''front'' = Inr idx' \<and>
          info_parentId (last (elements idx')) = Some ''A''"
    by blast
qed

theorem parent_identity_propagation_witness:
  "walk_svg_groups nested_doc ''front'' = Inr nested_index \<and>
   map info_parentId
     (map (mk_info ''front'') (filter (\<lambda>v. is_group (snd v)) (visits [] nested_doc)))
     = [None, Some ''A'', Some ''A'']"
proof -
  have "elements nested_index =
      map (mk_info ''front'') (filter (\<lambda>v. is_group (snd v)) (visits [] nested_doc))"
    using parent_identity_propagation [of nested_doc "''front''" nested_index] nested_doc_walk
    by blast
  moreover have "map info_parentId (elements nested_index) = [None, Some ''A'', Some ''A'']"
    by (simp add: nested_index_def)
  ultimately show ?thesis using nested_doc_walk by simp
qed

subsection \<open>Counts\<close>

text \<open>
  C4. After a walk, \<open>total\<close> and \<open>groups\<close> both equal the number of recorded elements,
  \<open>with_id\<close> is the number of recorded elements with a non-empty id, and \<open>with_class\<close> is
  the number of recorded elements with at least one class token.
\<close>

theorem counts_consistent:
  assumes "walk_svg_groups root side_label = Inr idx"
  shows "total (idx_counts idx) = int (length (elements idx)) \<and>
         groups (idx_counts idx) = total (idx_counts idx) \<and>
         with_id (idx_counts idx) = int (length (filter (\<lambda>e. truthy (info_id e)) (elements idx))) \<and>
         with_class (idx_counts idx) = int (length (filter (\<lambda>e. info_classes e \<noteq> []) (elements idx)))"
proof -
  from walk_fold [OF assms] obtain st where
    st: "st = fold record_group (group_infos side_label [] root) init_state"
    and e: "elements idx = st_elements st" and c: "idx_counts idx = st_counts st"
    by blast
  have el: "st_elements st = group_infos side_label [] root"
    by (simp add: st elements_fold init_state_def)
  show ?thesis
    by (simp add: e c el) (simp add: st counts_fold init_state_def)
qed

theorem counts_consistent_witness:
  "walk_svg_groups dup_doc ''back'' = Inr dup_index \<and>
   total (idx_counts dup_index) = 4 \<and> groups (idx_counts dup_index) = 4 \<and>
   length (elements dup_index) = 4 \<and>
   with_id (idx_counts dup_index) = int (length (filter (\<lambda>e. truthy (info_id e)) (elements dup_index))) \<and>
   with_class (idx_counts dup_index) = int (length (filter (\<lambda>e. info_classes e \<noteq> []) (elements dup_index)))"
  using counts_consistent [OF dup_doc_walk] dup_doc_walk
  by (simp add: dup_index_def)

subsection \<open>The id index\<close>

lemma find_Some_set: "List.find P xs = Some y \<Longrightarrow> y \<in> set xs \<and> P y"
  by (induction xs) (auto split: if_splits)

text \<open>
  C2. For every recorded element with a non-empty id, \<open>byId\<close> at that id holds the last
  recorded element carrying the id (the element itself when no later one shares the id);
  \<open>byId\<close> has no other keys; and \<open>elements\<close> keeps one entry for every group node,
  so the earlier duplicates are still there.
\<close>

theorem byId_last_wins:
  assumes "walk_svg_groups root side_label = Inr idx"
  shows "(\<forall>e\<in>set (elements idx). truthy (info_id e) \<longrightarrow>
            map_of (byId idx) (the (info_id e)) =
              Some (last (filter (\<lambda>e'. info_id e' = info_id e) (elements idx))))
         \<and> (\<forall>s. map_of (byId idx) s \<noteq> None \<longrightarrow>
                 s \<noteq> [] \<and> (\<exists>e\<in>set (elements idx). info_id e = Some s))
         \<and> elements idx =
             map (mk_info side_label) (filter (\<lambda>v. is_group (snd v)) (visits [] root))"
proof -
  from walk_fold [OF assms] obtain st where
    st: "st = fold record_group (group_infos side_label [] root) init_state"
    and e: "elements idx = st_elements st" and b: "byId idx = st_byId st"
    by blast
  define xs where "xs = group_infos side_label [] root"
  have el: "elements idx = xs"
    by (simp add: e st elements_fold init_state_def xs_def)
  have look: "map_of (byId idx) s =
      (case List.find (\<lambda>e. truthy (info_id e) \<and> info_id e = Some s) (rev xs) of
         Some e \<Rightarrow> Some e | None \<Rightarrow> None)" for s
  proof -
    have "map_of (st_byId init_state) s = None" by (simp add: init_state_def)
    then show ?thesis by (simp add: b st byId_fold xs_def split: option.splits)
  qed
  have 1: "map_of (byId idx) (the (info_id x)) =
             Some (last (filter (\<lambda>e'. info_id e' = info_id x) xs))"
    if x: "x \<in> set xs" and t: "truthy (info_id x)" for x
  proof -
    from t obtain s where s: "info_id x = Some s" "s \<noteq> []"
      by (cases "info_id x") auto
    have P: "(\<lambda>e. truthy (info_id e) \<and> info_id e = Some s) = (\<lambda>e. info_id e = Some s)"
      using s(2) by (auto simp: fun_eq_iff)
    have "List.find (\<lambda>e. info_id e = Some s) (rev xs)
            = Some (last (filter (\<lambda>e. info_id e = Some s) xs))"
      using x s(1) by (rule find_rev_last)
    then show ?thesis by (simp add: look s P)
  qed
  have 2: "s \<noteq> [] \<and> (\<exists>e\<in>set xs. info_id e = Some s)" if n: "map_of (byId idx) s \<noteq> None" for s
  proof -
    from n obtain y where "List.find (\<lambda>e. truthy (info_id e) \<and> info_id e = Some s) (rev xs) = Some y"
      by (auto simp: look split: option.splits)
    then have "y \<in> set xs" "truthy (info_id y)" "info_id y = Some s"
      by (auto dest: find_Some_set)
    then show ?thesis by auto
  qed
  show ?thesis
    using 1 2 by (simp add: el) (simp add: xs_def group_infos_def)
qed

theorem byId_last_wins_witness:
  "walk_svg_groups dup_doc ''back'' = Inr dup_index \<and>
   elements dup_index ! 0 \<in> set (elements dup_index) \<and>
   truthy (info_id (elements dup_index ! 0)) \<and>
   map_of (byId dup_index) ''m'' = Some (elements dup_index ! 1) \<and>
   map_of (byId dup_index) ''k'' = Some (elements dup_index ! 3) \<and>
   length (elements dup_index) = 4"
proof -
  have m: "elements dup_index ! 0 \<in> set (elements dup_index)"
    and t: "truthy (info_id (elements dup_index ! 0))"
    and k: "elements dup_index ! 3 \<in> set (elements dup_index)"
    and tk: "truthy (info_id (elements dup_index ! 3))"
    by (simp_all add: dup_index_def)
  have l: "last (filter (\<lambda>e'. info_id e' = info_id (elements dup_index ! 0)) (elements dup_index))
             = elements dup_index ! 1"
     and lk: "last (filter (\<lambda>e'. info_id e' = info_id (elements dup_index ! 3)) (elements dup_index))
             = elements dup_index ! 3"
     and i: "the (info_id (elements dup_index ! 0)) = ''m''"
           "the (info_id (elements dup_index ! 3)) = ''k''"
    by (simp_all add: dup_index_def)
  from byId_last_wins [OF dup_doc_walk] m t k tk
  have "map_of (byId dup_index) (the (info_id (elements dup_index ! 0))) =
          Some (last (filter (\<lambda>e'. info_id e' = info_id (elements dup_index ! 0)) (elements dup_index)))"
       "map_of (byId dup_index) (the (info_id (elements dup_index ! 3))) =
          Some (last (filter (\<lambda>e'. info_id e' = info_id (elements dup_index ! 3)) (elements dup_index)))"
    by blast+
  then have "map_of (byId dup_index) ''m'' = Some (elements dup_index ! 1)"
       "map_of (byId dup_index) ''k'' = Some (elements dup_index ! 3)"
    by (simp_all only: l lk i)
  moreover have "length (elements dup_index) = 4" by (simp add: dup_index_def)
  ultimately show ?thesis using dup_doc_walk m t by simp
qed

subsection \<open>The class index\<close>

lemma finite_ids_with_class: "finite (ids_with_class xs c)"
proof -
  have "ids_with_class xs c \<subseteq> (\<lambda>e. the (info_id e)) ` set xs"
    by (auto simp: ids_with_class_def image_iff) force
  then show ?thesis by (rule finite_subset) simp
qed

lemma ids_with_class_snoc:
  "ids_with_class (xs @ [x]) c =
     (if truthy (info_id x) \<and> c \<in> set (info_classes x)
      then insert (the (info_id x)) (ids_with_class xs c) else ids_with_class xs c)"
  by (cases "info_id x") (auto simp: ids_with_class_def)

lemma map_of_add_class_id:
  "map_of (add_class_id s c m) c' =
     (if c' = c then Some (insert s (case map_of m c of None \<Rightarrow> {} | Some ids \<Rightarrow> ids))
      else map_of m c')"
  by (simp add: add_class_id_def update_conv')

lemma distinct_add_class_id:
  "distinct (map fst m) \<Longrightarrow> distinct (map fst (add_class_id s c m))"
  by (simp add: add_class_id_def distinct_update)

lemma map_of_fold_add_class_id:
  "map_of (fold (add_class_id s) cls m) c' =
     (if c' \<in> set cls then Some (insert s (case map_of m c' of None \<Rightarrow> {} | Some ids \<Rightarrow> ids))
      else map_of m c')"
  by (induction cls arbitrary: m) (auto simp: map_of_add_class_id)

lemma distinct_fold_add_class_id:
  "distinct (map fst m) \<Longrightarrow> distinct (map fst (fold (add_class_id s) cls m))"
  by (induction cls arbitrary: m) (auto simp: distinct_add_class_id)

lemma class_to_ids_fold:
  "distinct (map fst (st_class_to_ids (fold record_group xs init_state))) \<and>
   (\<forall>c. map_of (st_class_to_ids (fold record_group xs init_state)) c =
      (if ids_with_class xs c = {} then None else Some (ids_with_class xs c)))"
proof (induction xs rule: rev_induct)
  case Nil
  show ?case by (simp add: init_state_def ids_with_class_def)
next
  case (snoc x xs)
  let ?m = "st_class_to_ids (fold record_group xs init_state)"
  from snoc have d: "distinct (map fst ?m)"
    and m: "\<And>c. map_of ?m c = (if ids_with_class xs c = {} then None else Some (ids_with_class xs c))"
    by blast+
  have v: "(case map_of ?m c of None \<Rightarrow> {} | Some ids \<Rightarrow> ids) = ids_with_class xs c" for c
    by (simp add: m)
  show ?case
  proof (cases "truthy (info_id x)")
    case True
    show ?thesis
      using True d
      by (simp add: class_to_ids_record_group distinct_fold_add_class_id
            map_of_fold_add_class_id v ids_with_class_snoc m)
  next
    case False
    then show ?thesis using d m
      by (simp add: class_to_ids_record_group ids_with_class_snoc)
  qed
qed

lemma update_fresh: "k \<notin> fst ` set al \<Longrightarrow> AList.update k v al = al @ [(k, v)]"
  by (induction al) auto

lemma fold_update_distinct:
  "distinct (map fst xs) \<Longrightarrow> fst ` set xs \<inter> fst ` set acc = {} \<Longrightarrow>
   fold (\<lambda>(k, v) d. AList.update k (f v) d) xs acc = acc @ map (\<lambda>(k, v). (k, f v)) xs"
proof (induction xs arbitrary: acc)
  case Nil
  show ?case by simp
next
  case (Cons x xs)
  obtain k v where x: "x = (k, v)" by (cases x)
  have fresh: "k \<notin> fst ` set acc" using Cons.prems(2) x by auto
  have "fst ` set xs \<inter> fst ` set (acc @ [(k, f v)]) = {}"
    using Cons.prems x by auto
  moreover have "distinct (map fst xs)" using Cons.prems(1) by simp
  ultimately have "fold (\<lambda>(k, v) d. AList.update k (f v) d) xs (acc @ [(k, f v)])
      = (acc @ [(k, f v)]) @ map (\<lambda>(k, v). (k, f v)) xs"
    by (rule Cons.IH[rotated])
  then show ?case by (simp add: x update_fresh [OF fresh])
qed

lemma class_to_ids_json_distinct:
  assumes "distinct (map fst m)"
  shows "class_to_ids_json m = map (\<lambda>(k, v). (k, sorted_list_of_set v)) (sort_key fst m)"
proof -
  have "distinct (map fst (sort_key fst m))"
    using assms by (metis distinct_map distinct_sort set_sort  distinct_map) 
  then show ?thesis
    unfolding class_to_ids_json_def by (subst fold_update_distinct) simp_all
qed

lemma walk_classToIds:
  assumes "walk_svg_groups root side_label = Inr idx"
  shows "\<exists>m. distinct (map fst m) \<and>
             (\<forall>c. map_of m c = (if ids_with_class (elements idx) c = {} then None
                                 else Some (ids_with_class (elements idx) c))) \<and>
             classToIds idx = map (\<lambda>(k, v). (k, sorted_list_of_set v)) (sort_key fst m)"
proof -
  from walk_fold [OF assms] obtain st where
    st: "st = fold record_group (group_infos side_label [] root) init_state"
    and e: "elements idx = st_elements st"
    and c: "classToIds idx = class_to_ids_json (st_class_to_ids st)"
    by blast
  have el: "elements idx = group_infos side_label [] root"
    by (simp add: e st elements_fold init_state_def)
  from class_to_ids_fold [of "group_infos side_label [] root"]
  have d: "distinct (map fst (st_class_to_ids st))"
    and m: "\<forall>c. map_of (st_class_to_ids st) c =
            (if ids_with_class (elements idx) c = {} then None
             else Some (ids_with_class (elements idx) c))"
    unfolding st el by blast+
  have "classToIds idx =
      map (\<lambda>(k, v). (k, sorted_list_of_set v)) (sort_key fst (st_class_to_ids st))"
    using c d by (simp add: class_to_ids_json_distinct)
  with d m show ?thesis by blast
qed

text \<open>
  C3. The keys of \<open>classToIds\<close> are exactly the class tokens of the recorded elements that
  have a non-empty id; they come in sorted order, without repetition. The value at a key
  \<open>c\<close> lists exactly the non-empty ids of the recorded elements carrying \<open>c\<close>, sorted
  and without repetition.
\<close>

theorem classToIds_exact:
  assumes "walk_svg_groups root side_label = Inr idx"
  shows "set (map fst (classToIds idx)) =
           {c. \<exists>e\<in>set (elements idx). truthy (info_id e) \<and> c \<in> set (info_classes e)}
         \<and> sorted (map fst (classToIds idx)) \<and> distinct (map fst (classToIds idx))
         \<and> (\<forall>(c, ids)\<in>set (classToIds idx).
               set ids = ids_with_class (elements idx) c \<and> sorted ids \<and> distinct ids)"
proof -
  from walk_classToIds [OF assms] obtain m where
    d: "distinct (map fst m)"
    and m: "\<And>c. map_of m c = (if ids_with_class (elements idx) c = {} then None
                                 else Some (ids_with_class (elements idx) c))"
    and r: "classToIds idx = map (\<lambda>(k, v). (k, sorted_list_of_set v)) (sort_key fst m)"
    by blast
  have keys: "map fst (classToIds idx) = map fst (sort_key fst m)"
    by (simp add: r comp_def case_prod_beta)
  have "fst ` set m = dom (map_of m)" by (simp add: dom_map_of_conv_image_fst)
  also have "\<dots> = {c. ids_with_class (elements idx) c \<noteq> {}}"
    by (auto simp: dom_def m)
  also have "\<dots> = {c. \<exists>e\<in>set (elements idx). truthy (info_id e) \<and> c \<in> set (info_classes e)}"
  proof -
    have "ids_with_class (elements idx) c \<noteq> {} \<longleftrightarrow>
          (\<exists>e\<in>set (elements idx). truthy (info_id e) \<and> c \<in> set (info_classes e))" for c
    proof
      assume "ids_with_class (elements idx) c \<noteq> {}"
      then obtain s e where "s \<noteq> []" "e \<in> set (elements idx)" "info_id e = Some s"
          "c \<in> set (info_classes e)"
        by (auto simp: ids_with_class_def)
      then show "\<exists>e\<in>set (elements idx). truthy (info_id e) \<and> c \<in> set (info_classes e)"
        by (intro bexI [of _ e]) auto
    next
      assume "\<exists>e\<in>set (elements idx). truthy (info_id e) \<and> c \<in> set (info_classes e)"
      then obtain e where e: "e \<in> set (elements idx)" "truthy (info_id e)" "c \<in> set (info_classes e)"
        by blast
      then obtain s where "info_id e = Some s" "s \<noteq> []" by (cases "info_id e") auto
      with e have "s \<in> ids_with_class (elements idx) c"
        by (auto simp: ids_with_class_def)
      then show "ids_with_class (elements idx) c \<noteq> {}" by blast
    qed
    then show ?thesis by simp
  qed
  finally have k: "set (map fst (classToIds idx)) =
      {c. \<exists>e\<in>set (elements idx). truthy (info_id e) \<and> c \<in> set (info_classes e)}"
    by (simp add: keys)
  have s: "sorted (map fst (classToIds idx))"
    unfolding keys by (rule sorted_sort_key)
  have dk: "distinct (map fst (classToIds idx))"
    unfolding keys using d by (simp add: distinct_map)
  have v: "set ids = ids_with_class (elements idx) c \<and> sorted ids \<and> distinct ids"
    if "(c, ids) \<in> set (classToIds idx)" for c ids
  proof -
    from that obtain w where w: "(c, w) \<in> set m" and i: "ids = sorted_list_of_set w"
      by (auto simp: r)
    from w d have "map_of m c = Some w" by simp
    then have "w = ids_with_class (elements idx) c"
      by (simp add: m split: if_splits)
    then show ?thesis by (simp add: i finite_ids_with_class)
  qed
  from k s dk v show ?thesis by blast
qed

theorem classToIds_exact_witness:
  "walk_svg_groups dup_doc ''back'' = Inr dup_index \<and>
   set (map fst (classToIds dup_index)) = {''a'', ''b'', ''c''} \<and>
   map fst (classToIds dup_index) = [''a'', ''b'', ''c''] \<and>
   (''b'', [''k'', ''m'']) \<in> set (classToIds dup_index) \<and>
   ids_with_class (elements dup_index) ''b'' = {''k'', ''m''} \<and>
   {c. \<exists>e\<in>set (elements dup_index). truthy (info_id e) \<and> c \<in> set (info_classes e)} = {''a'', ''b'', ''c''}"
proof -
  note th = classToIds_exact [OF dup_doc_walk]
  have 1: "map fst (classToIds dup_index) = [''a'', ''b'', ''c'']"
    and 2: "(''b'', [''k'', ''m'']) \<in> set (classToIds dup_index)"
    by (simp_all add: dup_index_def)
  from th 2 have "set [''k'', ''m''] = ids_with_class (elements dup_index) ''b''"
    by blast
  then have 3: "ids_with_class (elements dup_index) ''b'' = {''k'', ''m''}" by simp
  from th have "set (map fst (classToIds dup_index)) =
      {c. \<exists>e\<in>set (elements dup_index). truthy (info_id e) \<and> c \<in> set (info_classes e)}"
    by blast
  then have 4: "{c. \<exists>e\<in>set (elements dup_index). truthy (info_id e) \<and> c \<in> set (info_classes e)}
       = {''a'', ''b'', ''c''}"
    by (simp only: 1) simp
  from 1 2 3 4 dup_doc_walk show ?thesis by simp
qed

subsection \<open>Empty ids\<close>

lemma nearest_id_not_empty: "nearest_id anc \<noteq> Some []"
  by (induction anc) (auto split: if_splits)

text \<open>
  C10. A group whose id attribute is the empty string is recorded with \<open>id = ""\<close> (the
  attribute as it is), but it does not count in \<open>with_id\<close>, \<open>byId\<close> has no key \<open>""\<close>,
  no value of \<open>classToIds\<close> contains \<open>""\<close> and its classes make no key, and no recorded
  element has \<open>""\<close> as parentId: below such a node the identity inherited from above is
  passed on.
\<close>

theorem empty_id_is_no_id:
  assumes "walk_svg_groups root side_label = Inr idx"
  shows "elements idx =
           map (mk_info side_label) (filter (\<lambda>v. is_group (snd v)) (visits [] root))
         \<and> with_id (idx_counts idx) =
             int (length (filter (\<lambda>e. info_id e \<noteq> None \<and> info_id e \<noteq> Some []) (elements idx)))
         \<and> map_of (byId idx) [] = None
         \<and> (\<forall>(c, ids)\<in>set (classToIds idx). [] \<notin> set ids)
         \<and> set (map fst (classToIds idx)) =
             (\<Union>e\<in>set (elements idx).
                if info_id e = None \<or> info_id e = Some [] then {} else set (info_classes e))
         \<and> (\<forall>e\<in>set (elements idx). info_parentId e \<noteq> Some [])
         \<and> (\<forall>a anc. attrib a ''id'' = Some [] \<longrightarrow> nearest_id (a # anc) = nearest_id anc)"
proof -
  from walk_fold [OF assms] obtain st where
    st: "st = fold record_group (group_infos side_label [] root) init_state"
    and e: "elements idx = st_elements st" and b: "byId idx = st_byId st"
    and c: "idx_counts idx = st_counts st"
    by blast
  have el: "elements idx = group_infos side_label [] root"
    by (simp add: e st elements_fold init_state_def)
  have t: "truthy i \<longleftrightarrow> i \<noteq> None \<and> i \<noteq> Some []" for i
    by (cases i) auto
  have 1: "elements idx =
      map (mk_info side_label) (filter (\<lambda>v. is_group (snd v)) (visits [] root))"
    by (simp add: el group_infos_def)
  have 2: "with_id (idx_counts idx) =
      int (length (filter (\<lambda>e. info_id e \<noteq> None \<and> info_id e \<noteq> Some []) (elements idx)))"
    using counts_fold(3) [of "group_infos side_label [] root" init_state]
    by (simp add: c st el t) (simp add: init_state_def)
  have 3: "map_of (byId idx) [] = None"
  proof -
    have "map_of (st_byId init_state) [] = None" by (simp add: init_state_def)
    moreover have "List.find (\<lambda>e. truthy (info_id e) \<and> info_id e = Some []) (rev xs) = None"
      for xs :: "info list"
      by (auto simp: find_None_iff)
    ultimately show ?thesis by (simp add: b st byId_fold)
  qed
  from walk_classToIds [OF assms] obtain m where
    d: "distinct (map fst m)"
    and m: "\<And>c. map_of m c = (if ids_with_class (elements idx) c = {} then None
                                 else Some (ids_with_class (elements idx) c))"
    and r: "classToIds idx = map (\<lambda>(k, v). (k, sorted_list_of_set v)) (sort_key fst m)"
    by blast
  have 4: "[] \<notin> set ids" if "(k, ids) \<in> set (classToIds idx)" for k ids
  proof -
    from that obtain w where w: "(k, w) \<in> set m" and i: "ids = sorted_list_of_set w"
      by (auto simp: r)
    from w d have "map_of m k = Some w" by simp
    then have "w = ids_with_class (elements idx) k"
      by (simp add: m split: if_splits)
    then show ?thesis by (simp add: i finite_ids_with_class) (simp add: ids_with_class_def)
  qed
  have 5: "set (map fst (classToIds idx)) =
      (\<Union>e\<in>set (elements idx).
         if info_id e = None \<or> info_id e = Some [] then {} else set (info_classes e))"
  proof -
    have "set (map fst (classToIds idx)) = fst ` set m"
      by (simp add: r comp_def case_prod_beta)
    also have "\<dots> = dom (map_of m)" by (simp add: dom_map_of_conv_image_fst)
    also have "\<dots> = {k. ids_with_class (elements idx) k \<noteq> {}}"
      by (auto simp: dom_def m)
    also have "\<dots> = (\<Union>e\<in>set (elements idx).
         if info_id e = None \<or> info_id e = Some [] then {} else set (info_classes e))"
      by (auto simp: ids_with_class_def split: if_splits)
    finally show ?thesis .
  qed
  have 6: "info_parentId x \<noteq> Some []" if "x \<in> set (elements idx)" for x
    using that by (auto simp: 1 mk_info_def nearest_id_not_empty)
  have 7: "nearest_id (a # anc) = nearest_id anc" if "attrib a ''id'' = Some []" for a anc
    using that by simp
  from 1 2 3 4 5 6 7 show ?thesis by blast
qed


theorem empty_id_is_no_id_witness:
  "walk_svg_groups empty_id_doc ''front'' = Inr empty_id_index \<and>
   map info_id (elements empty_id_index) = [Some ''A'', Some [], Some ''B''] \<and>
   with_id (idx_counts empty_id_index) = 2 \<and>
   map_of (byId empty_id_index) [] = None \<and>
   classToIds empty_id_index = [(''y'', [''B''])] \<and>
   map info_parentId (elements empty_id_index) = [None, Some ''A'', Some ''A'']"
proof -
  note th = empty_id_is_no_id [OF empty_id_doc_walk]
  from th have "map_of (byId empty_id_index) [] = None" by blast
  moreover from th have "with_id (idx_counts empty_id_index) =
      int (length (filter (\<lambda>e. info_id e \<noteq> None \<and> info_id e \<noteq> Some []) (elements empty_id_index)))"
    by blast
  then have "with_id (idx_counts empty_id_index) = 2"
    by (simp add: empty_id_index_def)
  moreover have "map info_id (elements empty_id_index) = [Some ''A'', Some [], Some ''B'']"
    "classToIds empty_id_index = [(''y'', [''B''])]"
    "map info_parentId (elements empty_id_index) = [None, Some ''A'', Some ''A'']"
    by (simp_all add: empty_id_index_def)
  ultimately show ?thesis using empty_id_doc_walk by simp
qed

subsection \<open>The walk returns on every parsed document\<close>

lemma rec_succeeds_aux:
  "well_tagged el \<longrightarrow> (\<exists>st'. rec side_label el parent_id st = Inr st')"
  "(\<forall>c\<in>set cs. well_tagged c) \<longrightarrow> (\<exists>st'. rec_children side_label cs parent_id st = Inr st')"
proof (induction side_label el parent_id st and side_label cs parent_id st
       rule: rec_rec_children.induct)
  case (1 side_label t a cs parent_id st)
  show ?case
  proof
    assume w: "well_tagged (Elem t a cs)"
    then obtain tg where tg: "strip_ns t = Inr tg"
      by (cases "strip_ns t") auto
    from w have cs: "\<forall>c\<in>set cs. well_tagged c" by simp
    from "1.IH" [OF tg refl refl refl] cs
    show "\<exists>st'. rec side_label (Elem t a cs) parent_id st = Inr st'"
      by (simp add: tg Let_def)
  qed
next
  case (2 side_label parent_id st)
  show ?case by simp
next
  case (3 side_label child rest parent_id st)
  show ?case
  proof
    assume w: "\<forall>c\<in>set (child # rest). well_tagged c"
    with "3.IH"(1) obtain st1 where s1: "rec side_label child parent_id st = Inr st1"
      by auto
    from "3.IH"(2) [OF s1] w
    show "\<exists>st'. rec_children side_label (child # rest) parent_id st = Inr st'"
      by (simp add: s1)
  qed
qed

lemma walk_succeeds:
  assumes "well_tagged root"
  shows "\<exists>idx. walk_svg_groups root side_label = Inr idx"
proof -
  from rec_succeeds_aux(1) assms obtain st where "rec side_label root None init_state = Inr st"
    by blast
  then show ?thesis by (simp add: walk_svg_groups_def)
qed

subsection \<open>The walk under the recursion limit\<close>







text \<open>A walk that returns under the recursion limit returns what the walk returns.\<close>

lemma rec_limited_sound_aux:
  "rec_limited k side_label el parent_id st = Inr st' \<longrightarrow> rec side_label el parent_id st = Inr st'"
  "rec_limited_children k side_label cs parent_id st = Inr st' \<longrightarrow>
     rec_children side_label cs parent_id st = Inr st'"
proof (induction k side_label el parent_id st and k side_label cs parent_id st
       arbitrary: st' and st' rule: rec_limited_rec_limited_children.induct)
  case (1 side_label el parent_id st)
  show ?case by simp
next
  case (2 k side_label t a cs parent_id st)
  show ?case
  proof (cases "strip_ns t")
    case (Inl e)
    then show ?thesis by simp
  next
    case (Inr tg)
    from "2.IH" [OF Inr refl refl refl] show ?thesis
      by (simp add: Inr Let_def)
  qed
next
  case (3 k side_label parent_id st)
  show ?case by simp
next
  case (4 k side_label child rest parent_id st)
  show ?case
  proof (cases "rec_limited k side_label child parent_id st")
    case (Inl e)
    then show ?thesis by simp
  next
    case (Inr st1)
    with "4.IH"(1) have "rec side_label child parent_id st = Inr st1" by blast
    with "4.IH"(2) [OF Inr] Inr show ?thesis by simp
  qed
qed

lemma walk_limited_sound:
  assumes "walk_svg_groups_limited k root side_label = Inr idx"
  shows "walk_svg_groups root side_label = Inr idx"
proof -
  from assms obtain st where r: "rec_limited k side_label root None init_state = Inr st"
    by (cases "rec_limited k side_label root None init_state")
       (auto simp: walk_svg_groups_limited_def)
  with rec_limited_sound_aux(1) have "rec side_label root None init_state = Inr st" by blast
  with assms r show ?thesis
    by (simp add: walk_svg_groups_limited_def walk_svg_groups_def)
qed





subsection \<open>Class tokens\<close>

declare tokens.simps [simp del]

lemma tokens_Nil: "tokens sep [] = []"
  by (simp add: tokens.simps)

lemma tokens_sep: "sep c \<Longrightarrow> tokens sep (c # cs) = tokens sep cs"
  by (simp add: tokens.simps [of sep "c # cs"] tokens.simps [of sep cs])

lemma tokens_word:
  "\<not> sep c \<Longrightarrow> tokens sep (c # cs) =
     (c # takeWhile (\<lambda>x. \<not> sep x) cs) # tokens sep (dropWhile (\<lambda>x. \<not> sep x) cs)"
  by (simp add: tokens.simps [of sep "c # cs"])

lemma tokens_unfold:
  "tokens sep s =
     (if takeWhile (\<lambda>x. \<not> sep x) s = [] then tokens sep (dropWhile (\<lambda>x. \<not> sep x) s)
      else takeWhile (\<lambda>x. \<not> sep x) s # tokens sep (dropWhile (\<lambda>x. \<not> sep x) s))"
  by (cases s) (auto simp: tokens_word)

lemma split_char_replace:
  "\<exists>rest. split_char (CHR '' '') (replace_char (CHR 0x0A) (CHR '' '') s) =
            takeWhile (\<lambda>x. \<not> class_sep x) s # rest \<and>
          filter (\<lambda>w. w \<noteq> []) rest = tokens class_sep (dropWhile (\<lambda>x. \<not> class_sep x) s)"
proof (induction s)
  case Nil
  show ?case by (simp add: replace_char_def tokens_Nil)
next
  case (Cons c cs)
  then obtain rest where
    r: "split_char (CHR '' '') (replace_char (CHR 0x0A) (CHR '' '') cs) =
          takeWhile (\<lambda>x. \<not> class_sep x) cs # rest"
    and f: "filter (\<lambda>w. w \<noteq> []) rest = tokens class_sep (dropWhile (\<lambda>x. \<not> class_sep x) cs)"
    by blast
  show ?case
  proof (cases "class_sep c")
    case True
    have "split_char (CHR '' '') (replace_char (CHR 0x0A) (CHR '' '') (c # cs)) =
        [] # takeWhile (\<lambda>x. \<not> class_sep x) cs # rest"
      using True r [unfolded replace_char_def] by (auto simp: replace_char_def class_sep_def)
    moreover have "filter (\<lambda>w. w \<noteq> []) (takeWhile (\<lambda>x. \<not> class_sep x) cs # rest) =
        tokens class_sep (dropWhile (\<lambda>x. \<not> class_sep x) (c # cs))"
      using True tokens_unfold [of class_sep cs] by (simp add: f tokens_sep)
    ultimately show ?thesis using True by simp
  next
    case False
    have "split_char (CHR '' '') (replace_char (CHR 0x0A) (CHR '' '') (c # cs)) =
        (c # takeWhile (\<lambda>x. \<not> class_sep x) cs) # rest"
      using False r [unfolded replace_char_def] by (auto simp: replace_char_def class_sep_def)
    then show ?thesis using False f by simp
  qed
qed

lemma classes_tokens:
  "filter (\<lambda>w. w \<noteq> []) (split_char (CHR '' '') (replace_char (CHR 0x0A) (CHR '' '') s))
     = tokens class_sep s"
proof -
  from split_char_replace [of s] obtain rest where
    r: "split_char (CHR '' '') (replace_char (CHR 0x0A) (CHR '' '') s) =
          takeWhile (\<lambda>x. \<not> class_sep x) s # rest"
    and f: "filter (\<lambda>w. w \<noteq> []) rest = tokens class_sep (dropWhile (\<lambda>x. \<not> class_sep x) s)"
    by blast
  show ?thesis
    using tokens_unfold [of class_sep s] by (simp add: r f)
qed

lemma tokens_clean: "t \<in> set (tokens sep s) \<Longrightarrow> t \<noteq> [] \<and> (\<forall>c\<in>set t. \<not> sep c)"
proof (induction sep s rule: tokens.induct)
  case (1 sep s)
  show ?case
  proof (cases "dropWhile sep s")
    case Nil
    with "1.prems" show ?thesis by (simp add: tokens.simps [of sep s])
  next
    case (Cons c cs)
    then have nc: "\<not> sep c" using hd_dropWhile [of sep s] by auto
    from "1.prems" Cons have
      "t = takeWhile (\<lambda>x. \<not> sep x) (c # cs) \<or> t \<in> set (tokens sep (dropWhile (\<lambda>x. \<not> sep x) (c # cs)))"
      by (simp add: tokens.simps [of sep s])
    then show ?thesis
    proof
      assume "t = takeWhile (\<lambda>x. \<not> sep x) (c # cs)"
      then show ?thesis using nc by (auto dest: set_takeWhileD)
    next
      assume "t \<in> set (tokens sep (dropWhile (\<lambda>x. \<not> sep x) (c # cs)))"
      then show ?thesis using "1.IH" [OF Cons] by blast
    qed
  qed
qed


text \<open>
  C5, as the walker does it. The classes of a node are the tokens of its class attribute
  (an absent attribute counts as empty) cut at spaces and line feeds only, in source order;
  no token is empty and none contains a space or a line feed. Tabs, carriage returns and
  other whitespace do not separate tokens and stay inside them.
\<close>

theorem classes_split_on_space_newline:
  "el_classes el = tokens class_sep (case attrib el ''class'' of None \<Rightarrow> [] | Some v \<Rightarrow> v)
   \<and> (\<forall>t\<in>set (el_classes el). t \<noteq> [] \<and> CHR '' '' \<notin> set t \<and> CHR 0x0A \<notin> set t)
   \<and> (walk_svg_groups root side_label = Inr idx \<longrightarrow>
        (\<forall>e\<in>set (elements idx). \<forall>t\<in>set (info_classes e).
            t \<noteq> [] \<and> CHR '' '' \<notin> set t \<and> CHR 0x0A \<notin> set t))"
proof -
  have 1: "el_classes x = tokens class_sep (case attrib x ''class'' of None \<Rightarrow> [] | Some v \<Rightarrow> v)"
    for x
    by (simp add: el_classes_def classes_tokens)
  have 2: "t \<noteq> [] \<and> CHR '' '' \<notin> set t \<and> CHR 0x0A \<notin> set t" if "t \<in> set (el_classes x)" for t x
    using tokens_clean [of t class_sep] that unfolding 1 by (auto simp: class_sep_def)
  have 3: "\<forall>e\<in>set (elements idx). \<forall>t\<in>set (info_classes e).
            t \<noteq> [] \<and> CHR '' '' \<notin> set t \<and> CHR 0x0A \<notin> set t"
    if w: "walk_svg_groups root side_label = Inr idx"
  proof (intro ballI)
    fix e t
    assume e: "e \<in> set (elements idx)" and t: "t \<in> set (info_classes e)"
    from e obtain v where "e = mk_info side_label v"
      by (auto simp: walk_elements [OF w] group_infos_def)
    with t have "t \<in> set (el_classes (snd v))" by (simp add: mk_info_def)
    then show "t \<noteq> [] \<and> CHR '' '' \<notin> set t \<and> CHR 0x0A \<notin> set t" by (rule 2)
  qed
  from 1 2 3 show ?thesis by blast
qed

lemma tab_doc_walk: "walk_svg_groups tab_doc ''front'' = Inr tab_index"
  unfolding tab_doc_def tab_index_def tab_class_def by code_simp

theorem classes_split_on_space_newline_witness:
  "el_classes spaced_doc = [''x'', ''y'', ''z''] \<and>
   tokens class_sep (''x  y'' @ [CHR 0x0A] @ ''z'') = [''x'', ''y'', ''z''] \<and>
   walk_svg_groups tab_doc ''front'' = Inr tab_index \<and>
   CHR '' '' \<notin> set tab_class \<and> CHR 0x0A \<notin> set tab_class"
proof -
  note th = classes_split_on_space_newline [of spaced_doc tab_doc "''front''" tab_index]
  have e: "el_classes spaced_doc = [''x'', ''y'', ''z'']"
    unfolding spaced_doc_def by code_simp
  from th have "el_classes spaced_doc =
      tokens class_sep (case attrib spaced_doc ''class'' of None \<Rightarrow> [] | Some v \<Rightarrow> v)"
    by blast
  then have t: "tokens class_sep (''x  y'' @ [CHR 0x0A] @ ''z'') = [''x'', ''y'', ''z'']"
    unfolding e by (simp add: spaced_doc_def)
  have "tab_class \<in> set (info_classes (hd (elements tab_index)))"
    "hd (elements tab_index) \<in> set (elements tab_index)"
    by (simp_all add: tab_index_def)
  with th tab_doc_walk have "CHR '' '' \<notin> set tab_class \<and> CHR 0x0A \<notin> set tab_class"
    by blast
  with e t tab_doc_walk show ?thesis by simp
qed

text \<open>
  The walker does not cut at every whitespace character: for the attribute \<open>a<TAB>b\<close> it
  records the single token \<open>a<TAB>b\<close>, where splitting on whitespace gives \<open>a\<close>
  and \<open>b\<close>.
\<close>

theorem classes_whitespace_counterexample:
  "walk_svg_groups tab_doc ''front'' = Inr tab_index \<and>
   map info_classes (elements tab_index) = [el_classes tab_doc] \<and>
   el_classes tab_doc = [tab_class] \<and>
   tokens is_whitespace tab_class = [''a'', ''b''] \<and>
   el_classes tab_doc \<noteq> tokens is_whitespace tab_class \<and>
   CHR 0x09 \<in> set (hd (el_classes tab_doc)) \<and>
   is_whitespace (CHR 0x09)"
proof -
  have 1: "el_classes tab_doc = [tab_class]"
    unfolding tab_doc_def tab_class_def by code_simp
  have 2: "tokens is_whitespace tab_class = [''a'', ''b'']"
    unfolding tab_class_def by code_simp
  have 3: "is_whitespace (CHR 0x09)" by (simp add: is_whitespace_def)
  have 4: "map info_classes (elements tab_index) = [[tab_class]]"
    by (simp add: tab_index_def)
  have 5: "[tab_class] \<noteq> [''a'', ''b'']" by simp
  have 6: "CHR 0x09 \<in> set tab_class" by (simp add: tab_class_def)
  from tab_doc_walk 1 2 3 4 5 6 show ?thesis by simp
qed

section \<open>Properties of the namespace normalizer\<close>

lemma strip_ns_wrapped:
  assumes "CHR ''}'' \<notin> set uri"
  shows "strip_ns (CHR ''{'' # uri @ CHR ''}'' # local) = Inr local"
  using assms
  by (simp add: strip_ns_def NSBRACE_START_def split1_def index_def
        takeWhile_append dropWhile_append takeWhile_eq_all_conv dropWhile_eq_Nil_conv)

lemma strip_ns_plain:
  assumes "take 1 tg \<noteq> ''{''"
  shows "strip_ns tg = Inr tg"
  using assms by (simp add: strip_ns_def NSBRACE_START_def)

lemma strip_ns_raises_iff:
  "strip_ns tg = Inl IndexError \<longleftrightarrow> take 1 tg = ''{'' \<and> CHR ''}'' \<notin> set tg"
  by (simp add: strip_ns_def NSBRACE_START_def split1_def index_def)

text \<open>
  C6. \<open>strip_ns\<close> is not total: on a tag that starts with a brace and has no closing brace,
  \<open>split\<close> returns a single piece and the index \<open>[1]\<close> raises \<open>IndexError\<close>; the tag is
  not returned unchanged.
\<close>

theorem strip_ns_unclosed_brace: "strip_ns ''{abc'' = Inl IndexError"
  by (simp add: strip_ns_def NSBRACE_START_def split1_def index_def)

section \<open>Properties of the loader\<close>

lemma contains_iff: "contains sub s \<longleftrightarrow> (\<exists>pre post. s = pre @ sub @ post)"
proof (induction s)
  case Nil
  show ?case by auto
next
  case (Cons c cs)
  have p: "take (length sub) (c # cs) = sub \<longleftrightarrow> (\<exists>post. c # cs = sub @ post)"
    by (metis append_eq_conv_conj append_take_drop_id)
  show ?case
  proof
    assume "contains sub (c # cs)"
    then consider "take (length sub) (c # cs) = sub" | "contains sub cs" by auto
    then show "\<exists>pre post. c # cs = pre @ sub @ post"
    proof cases
      case 1
      with p obtain post where "c # cs = [] @ sub @ post" by auto
      then show ?thesis by blast
    next
      case 2
      with Cons obtain pre post where "cs = pre @ sub @ post" by blast
      then have "c # cs = (c # pre) @ sub @ post" by simp
      then show ?thesis by blast
    qed
  next
    assume "\<exists>pre post. c # cs = pre @ sub @ post"
    then obtain pre post where e: "c # cs = pre @ sub @ post" by blast
    show "contains sub (c # cs)"
    proof (cases pre)
      case Nil
      with e have "\<exists>post. c # cs = sub @ post" by auto
      with p have "take (length sub) (c # cs) = sub" by blast
      then show ?thesis by simp
    next
      case (Cons a pre')
      with e have "cs = pre' @ sub @ post" by simp
      with Cons.IH show ?thesis by auto
    qed
  qed
qed

lemma parse_svg_side:
  assumes "parse_svg w path side_hint = Inr (root, side)"
  shows "side = (if truthy side_hint then the side_hint
                 else if contains ''back'' (str_lower w (basename path)) \<or>
                         contains ''posterior'' (str_lower w (basename path))
                      then ''back'' else ''front'')"
  using assms by (auto simp: parse_svg_def Let_def split: if_splits sum.splits)

lemma good_world_sides:
  "parse_svg good_world BACK_SVG None = Inr (nested_doc, ''back'')"
  "parse_svg good_world FRONT_SVG None = Inr (nested_doc, ''front'')"
  "parse_svg good_world FRONT_SVG (Some ''back'') = Inr (nested_doc, ''back'')"
  "parse_svg good_world FRONT_SVG (Some []) = Inr (nested_doc, ''front'')"
proof -
  have b: "contains ''back'' (lower_ascii (basename BACK_SVG))"
    unfolding BACK_SVG_def by code_simp
  have f: "\<not> contains ''back'' (lower_ascii (basename FRONT_SVG))"
    "\<not> contains ''posterior'' (lower_ascii (basename FRONT_SVG))"
    unfolding FRONT_SVG_def by code_simp+
  show "parse_svg good_world BACK_SVG None = Inr (nested_doc, ''back'')"
    using b by (simp add: parse_svg_def et_parse_def good_world_def)
  show "parse_svg good_world FRONT_SVG None = Inr (nested_doc, ''front'')"
    using f by (simp add: parse_svg_def et_parse_def good_world_def)
  show "parse_svg good_world FRONT_SVG (Some ''back'') = Inr (nested_doc, ''back'')"
    by (simp add: parse_svg_def et_parse_def good_world_def)
  show "parse_svg good_world FRONT_SVG (Some []) = Inr (nested_doc, ''front'')"
    using f by (simp add: parse_svg_def et_parse_def good_world_def)
qed

text \<open>
  C7, as the loader does it. A non-empty side hint is returned verbatim. Without a hint,
  or with the empty string as hint, the side is \<open>"back"\<close> exactly when the lowercased base
  name of the path contains \<open>"back"\<close> or \<open>"posterior"\<close>, and \<open>"front"\<close> otherwise. So
  \<open>torso_back.svg\<close> without a hint gives \<open>"back"\<close>, \<open>torso.svg\<close> gives \<open>"front"\<close>, and the
  hint \<open>"back"\<close> overrides the name \<open>torso.svg\<close>.
\<close>

theorem side_resolution:
  assumes "parse_svg w path side_hint = Inr (root, side)"
  shows "(\<forall>h. side_hint = Some h \<and> h \<noteq> [] \<longrightarrow> side = h)
       \<and> (side_hint = None \<or> side_hint = Some [] \<longrightarrow>
            (side = ''back'' \<longleftrightarrow>
               (\<exists>pre post. str_lower w (basename path) = pre @ ''back'' @ post) \<or>
               (\<exists>pre post. str_lower w (basename path) = pre @ ''posterior'' @ post))
            \<and> (side \<noteq> ''back'' \<longrightarrow> side = ''front''))"
proof -
  note s = parse_svg_side [OF assms]
  have 1: "side = h" if "side_hint = Some h" "h \<noteq> []" for h
    using s that by simp
  have 2: "(side = ''back'' \<longleftrightarrow>
               (\<exists>pre post. str_lower w (basename path) = pre @ ''back'' @ post) \<or>
               (\<exists>pre post. str_lower w (basename path) = pre @ ''posterior'' @ post))
            \<and> (side \<noteq> ''back'' \<longrightarrow> side = ''front'')"
    if "side_hint = None \<or> side_hint = Some []"
  proof -
    from that have "\<not> truthy side_hint" by auto
    with s have "side = (if contains ''back'' (str_lower w (basename path)) \<or>
                         contains ''posterior'' (str_lower w (basename path))
                      then ''back'' else ''front'')"
      by simp
    then show ?thesis unfolding contains_iff by (simp split: if_splits)
  qed
  from 1 2 show ?thesis by blast
qed

theorem side_resolution_witness:
  "parse_svg good_world BACK_SVG None = Inr (nested_doc, ''back'') \<and>
   basename BACK_SVG = ''torso_back.svg'' \<and>
   ((\<exists>pre post. str_lower good_world (basename BACK_SVG) = pre @ ''back'' @ post) \<or>
    (\<exists>pre post. str_lower good_world (basename BACK_SVG) = pre @ ''posterior'' @ post)) \<and>
   parse_svg good_world FRONT_SVG None = Inr (nested_doc, ''front'') \<and>
   basename FRONT_SVG = ''torso.svg'' \<and>
   parse_svg good_world FRONT_SVG (Some ''back'') = Inr (nested_doc, ''back'')"
proof -
  have b: "basename BACK_SVG = ''torso_back.svg''" "basename FRONT_SVG = ''torso.svg''"
    unfolding BACK_SVG_def FRONT_SVG_def by code_simp+
  from side_resolution [OF good_world_sides(1)]
  have "(\<exists>pre post. str_lower good_world (basename BACK_SVG) = pre @ ''back'' @ post) \<or>
    (\<exists>pre post. str_lower good_world (basename BACK_SVG) = pre @ ''posterior'' @ post)"
    by blast
  with b good_world_sides show ?thesis by simp
qed

text \<open>
  A hint that is given but empty is not returned: the test \<open>if side_hint:\<close> treats it as
  absent, and the side comes from the file name.
\<close>

theorem side_hint_counterexample:
  "parse_svg good_world FRONT_SVG (Some []) = Inr (nested_doc, ''front'') \<and> ''front'' \<noteq> ''''"
  using good_world_sides(4) by simp

section \<open>Properties of the run\<close>















section \<open>The two slug functions agree\<close>

declare sub_runs.simps [simp del] sub_dashes.simps [simp del]

lemma sub_runs_word: "\<not> p c \<Longrightarrow> sub_runs p (c # cs) = c # sub_runs p cs"
  by (simp add: sub_runs.simps)

lemma sub_runs_run: "p c \<Longrightarrow> sub_runs p (c # cs) = CHR ''-'' # sub_runs p (dropWhile p cs)"
  by (simp add: sub_runs.simps)

lemma sub_runs_cong:
  "(\<And>c. c \<in> set s \<Longrightarrow> p c = q c) \<Longrightarrow> sub_runs p s = sub_runs q s"
proof (induction p s rule: sub_runs.induct)
  case (1 p)
  show ?case by (simp add: sub_runs.simps)
next
  case (2 p c cs)
  have pc: "p c = q c" using "2.prems" by simp
  have dw: "dropWhile p cs = dropWhile q cs"
    using "2.prems" by (intro dropWhile_cong) auto
  show ?case
  proof (cases "p c")
    case True
    have "sub_runs p (dropWhile p cs) = sub_runs q (dropWhile p cs)"
      using "2.prems" by (intro "2.IH"(1) [OF True]) (auto dest: set_dropWhileD)
    then show ?thesis using True pc dw by (simp add: sub_runs_run)
  next
    case False
    have "sub_runs p cs = sub_runs q cs"
      using "2.prems" by (intro "2.IH"(2) [OF False]) auto
    then show ?thesis using False pc by (simp add: sub_runs_word)
  qed
qed

text \<open>Once a run has been dropped, the result is empty or starts with a character that
  is not a hyphen.\<close>

lemma sub_runs_dropWhile_head:
  assumes "p (CHR ''-'')"
  shows "sub_runs p (dropWhile p s) = [] \<or>
         (\<exists>c r. sub_runs p (dropWhile p s) = c # r \<and> c \<noteq> CHR ''-'')"
proof (cases "dropWhile p s")
  case Nil
  have "sub_runs p (dropWhile p s) = []" by (simp only: Nil sub_runs.simps)
  then show ?thesis by blast
next
  case (Cons c r)
  then have n: "\<not> p c" using hd_dropWhile [of p s] by auto
  with assms have "c \<noteq> CHR ''-''" by auto
  with Cons n show ?thesis by (simp add: sub_runs_word)
qed

lemma sub_dashes_sub_runs:
  "p (CHR ''-'') \<Longrightarrow> sub_dashes (sub_runs p s) = sub_runs p s"
proof (induction p s rule: sub_runs.induct)
  case (1 p)
  show ?case by (simp add: sub_runs.simps sub_dashes.simps)
next
  case (2 p c cs)
  show ?case
  proof (cases "p c")
    case True
    let ?R = "sub_runs p (dropWhile p cs)"
    have ih: "sub_dashes ?R = ?R" using "2.IH"(1) [OF True "2.prems"] .
    from sub_runs_dropWhile_head [of p cs] "2.prems"
    have "take 1 ?R \<noteq> ''-''" by auto
    then have "sub_dashes (CHR ''-'' # ?R) = CHR ''-'' # sub_dashes ?R"
      by (simp add: sub_dashes.simps)
    then show ?thesis using True ih by (simp add: sub_runs_run)
  next
    case False
    with "2.prems" have "c \<noteq> CHR ''-''" by auto
    then have "sub_dashes (c # sub_runs p cs) = c # sub_dashes (sub_runs p cs)"
      by (simp add: sub_dashes.simps)
    then show ?thesis using False "2.IH"(2) [OF False "2.prems"] by (simp add: sub_runs_word)
  qed
qed

lemma lstrip_sub_runs:
  assumes "p (CHR ''-'')"
  shows "dropWhile (\<lambda>c. c = CHR ''-'') (sub_runs p s) = sub_runs p (dropWhile p s)"
proof (cases s)
  case Nil
  then show ?thesis by (simp add: sub_runs.simps)
next
  case (Cons c cs)
  show ?thesis
  proof (cases "p c")
    case True
    from sub_runs_dropWhile_head [of p cs] assms
    have "dropWhile (\<lambda>c. c = CHR ''-'') (sub_runs p (dropWhile p cs)) = sub_runs p (dropWhile p cs)"
      by auto
    then show ?thesis using True Cons by (simp add: sub_runs_run)
  next
    case False
    with assms have "c \<noteq> CHR ''-''" by auto
    then show ?thesis using False Cons by (simp add: sub_runs_word)
  qed
qed

lemma dropWhile_weaker:
  "(\<And>c. ws c \<Longrightarrow> p c) \<Longrightarrow> dropWhile p (dropWhile ws s) = dropWhile p s"
  by (induction s) auto

lemma rstrip_chars_Cons:
  "rstrip_chars q (c # y) = (if \<forall>x\<in>set (c # y). q x then [] else c # rstrip_chars q y)"
  by (auto simp: rstrip_chars_def dropWhile_append)

lemma rstrip_chars_Nil: "rstrip_chars q [] = []"
  by (simp add: rstrip_chars_def)

lemma rstrip_chars_snoc: "q c \<Longrightarrow> rstrip_chars q (y @ [c]) = rstrip_chars q y"
  by (simp add: rstrip_chars_def)

lemma rstrip_chars_idem: "rstrip_chars q (rstrip_chars q y) = rstrip_chars q y"
  by (simp add: rstrip_chars_def)

lemma rstrip_chars_decomp:
  "\<exists>w. s = rstrip_chars q s @ w \<and> (\<forall>x\<in>set w. q x)"
proof -
  have "rev s = takeWhile q (rev s) @ dropWhile q (rev s)" by simp
  then have "s = rev (dropWhile q (rev s)) @ rev (takeWhile q (rev s))"
    by (metis rev_append rev_rev_ident)
  moreover have "\<forall>x\<in>set (rev (takeWhile q (rev s))). q x"
    by (auto dest: set_takeWhileD)
  ultimately show ?thesis unfolding rstrip_chars_def by blast
qed

lemma lstrip_rstrip_commute:
  "dropWhile q (rstrip_chars q s) = rstrip_chars q (dropWhile q s)"
proof (induction s)
  case Nil
  show ?case by (simp add: rstrip_chars_Nil)
next
  case (Cons c y)
  show ?case
  proof (cases "\<forall>x\<in>set (c # y). q x")
    case True
    have a: "rstrip_chars q (c # y) = []" using True by (simp add: rstrip_chars_Cons)
    have b: "dropWhile q (c # y) = []" using True by simp
    show ?thesis by (simp only: a b) (simp add: rstrip_chars_Nil)
  next
    case False
    show ?thesis
    proof (cases "q c")
      case True
      with False Cons show ?thesis by (auto simp: rstrip_chars_Cons)
    next
      case qc: False
      with False show ?thesis by (simp add: rstrip_chars_Cons)
    qed
  qed
qed


lemma sub_runs_all:
  assumes "w \<noteq> []" "\<And>x. x \<in> set w \<Longrightarrow> p x"
  shows "sub_runs p w = ''-''"
proof -
  from assms(1) obtain c w' where w: "w = c # w'" by (cases w) auto
  with assms(2) have c: "p c" and d: "dropWhile p w' = []" by auto
  have "sub_runs p (dropWhile p w') = []" by (simp only: d sub_runs.simps(1))
  with c show ?thesis by (simp add: w sub_runs_run)
qed

lemma sub_runs_append_run:
  "p (CHR ''-'') \<Longrightarrow> w \<noteq> [] \<Longrightarrow> (\<And>x. x \<in> set w \<Longrightarrow> p x) \<Longrightarrow>
   sub_runs p (x @ w) = rstrip_chars (\<lambda>c. c = CHR ''-'') (sub_runs p x) @ ''-''"
proof (induction p x rule: sub_runs.induct)
  case (1 p)
  show ?case using sub_runs_all [of w p] "1.prems" by (simp add: sub_runs.simps(1) rstrip_chars_Nil)
next
  case (2 p c cs)
  show ?case
  proof (cases "p c")
    case True
    let ?R = "sub_runs p (dropWhile p cs)"
    show ?thesis
    proof (cases "\<forall>x\<in>set cs. p x")
      case all: True
      then have "dropWhile p (cs @ w) = []" "dropWhile p cs = []"
        using "2.prems"(3) by auto
      then have "sub_runs p ((c # cs) @ w) = ''-''" "sub_runs p (c # cs) = ''-''"
        using True by (simp_all add: sub_runs_run sub_runs.simps(1) del: dropWhile_eq_Nil_conv)
      then show ?thesis by (simp add: rstrip_chars_Cons rstrip_chars_Nil)
    next
      case nall: False
      then have dw: "dropWhile p (cs @ w) = dropWhile p cs @ w"
        by (auto simp: dropWhile_append)
      from nall have ne: "dropWhile p cs \<noteq> []" by simp
      have ih: "sub_runs p (dropWhile p cs @ w) = rstrip_chars (\<lambda>c. c = CHR ''-'') ?R @ ''-''"
        using "2.IH"(1) [OF True "2.prems"] by simp
      from ne obtain d r where dr: "dropWhile p cs = d # r" by (cases "dropWhile p cs") auto
      then have "\<not> p d" using hd_dropWhile [of p cs] by auto
      with "2.prems"(1) have "d \<noteq> CHR ''-''" by auto
      with dr \<open>\<not> p d\<close> have "\<exists>x\<in>set ?R. x \<noteq> CHR ''-''"
        by (auto simp: sub_runs_word)
      then have rs: "rstrip_chars (\<lambda>c. c = CHR ''-'') (CHR ''-'' # ?R) =
          CHR ''-'' # rstrip_chars (\<lambda>c. c = CHR ''-'') ?R"
        by (auto simp: rstrip_chars_Cons)
      have "sub_runs p ((c # cs) @ w) = CHR ''-'' # sub_runs p (dropWhile p cs @ w)"
        using True dw by (simp add: sub_runs_run)
      then show ?thesis using True by (simp add: ih rs sub_runs_run)
    qed
  next
    case False
    with "2.prems"(1) have "c \<noteq> CHR ''-''" by auto
    then have rs: "rstrip_chars (\<lambda>c. c = CHR ''-'') (c # sub_runs p cs) =
          c # rstrip_chars (\<lambda>c. c = CHR ''-'') (sub_runs p cs)"
      by (auto simp: rstrip_chars_Cons)
    have ih: "sub_runs p (cs @ w) = rstrip_chars (\<lambda>c. c = CHR ''-'') (sub_runs p cs) @ ''-''"
      using "2.IH"(2) [OF False "2.prems"] by simp
    show ?thesis using False by (simp add: sub_runs_word ih rs)
  qed
qed

lemma rstrip_sub_runs_append:
  assumes "p (CHR ''-'')" "\<And>x. x \<in> set w \<Longrightarrow> p x"
  shows "rstrip_chars (\<lambda>c. c = CHR ''-'') (sub_runs p (x @ w)) =
         rstrip_chars (\<lambda>c. c = CHR ''-'') (sub_runs p x)"
proof (cases "w = []")
  case True
  then show ?thesis by simp
next
  case False
  from sub_runs_append_run [of p w x] assms False
  have "sub_runs p (x @ w) = rstrip_chars (\<lambda>c. c = CHR ''-'') (sub_runs p x) @ ''-''"
    by blast
  then show ?thesis by (simp add: rstrip_chars_snoc rstrip_chars_idem)
qed

lemma rstrip_sub_runs_rstrip:
  assumes "p (CHR ''-'')" "\<And>c. ws c \<Longrightarrow> p c"
  shows "rstrip_chars (\<lambda>c. c = CHR ''-'') (sub_runs p (rstrip_chars ws s)) =
         rstrip_chars (\<lambda>c. c = CHR ''-'') (sub_runs p s)"
proof -
  from rstrip_chars_decomp [of s ws] obtain w where
    w: "s = rstrip_chars ws s @ w" and a: "\<forall>x\<in>set w. ws x" by blast
  have "rstrip_chars (\<lambda>c. c = CHR ''-'') (sub_runs p (rstrip_chars ws s @ w)) =
         rstrip_chars (\<lambda>c. c = CHR ''-'') (sub_runs p (rstrip_chars ws s))"
    using assms a by (intro rstrip_sub_runs_append) auto
  with w show ?thesis by simp
qed

lemma strip_sub_runs_strip:
  assumes "p (CHR ''-'')" "\<And>c. ws c \<Longrightarrow> p c"
  shows "strip_chars (\<lambda>c. c = CHR ''-'') (sub_runs p (strip_chars ws s)) =
         strip_chars (\<lambda>c. c = CHR ''-'') (sub_runs p s)"
proof -
  let ?d = "\<lambda>c. c = CHR ''-''"
  have "strip_chars ?d (sub_runs p (strip_chars ws s)) =
        dropWhile ?d (rstrip_chars ?d (sub_runs p (rstrip_chars ws (dropWhile ws s))))"
    by (simp add: strip_chars_def lstrip_rstrip_commute)
  also have "\<dots> = dropWhile ?d (rstrip_chars ?d (sub_runs p (dropWhile ws s)))"
    using rstrip_sub_runs_rstrip [of p ws "dropWhile ws s"] assms by simp
  also have "\<dots> = rstrip_chars ?d (dropWhile ?d (sub_runs p (dropWhile ws s)))"
    by (simp add: lstrip_rstrip_commute)
  also have "\<dots> = rstrip_chars ?d (sub_runs p (dropWhile p (dropWhile ws s)))"
    using lstrip_sub_runs [of p "dropWhile ws s"] assms(1) by simp
  also have "\<dots> = rstrip_chars ?d (sub_runs p (dropWhile p s))"
    using dropWhile_weaker [of ws p s] assms(2) by simp
  also have "\<dots> = rstrip_chars ?d (dropWhile ?d (sub_runs p s))"
    using lstrip_sub_runs [of p s] assms(1) by simp
  finally show ?thesis by (simp add: strip_chars_def)
qed

lemma lower_ascii_map: "lower_ascii s = map lower_char s"
  by (simp add: lower_ascii_def)

lemma of_char_lower_char:
  "(of_char (lower_char c) :: nat) =
     (if 65 \<le> (of_char c :: nat) \<and> (of_char c :: nat) \<le> 90 then of_char c + 32 else of_char c)"
  by (simp add: lower_char_def less_eq_char_def)

lemma char_eq_nat: "c = d \<longleftrightarrow> (of_char c :: nat) = of_char d"
  by simp

lemma py_isspace_lower: "py_isspace (lower_char c) = py_isspace c"
  unfolding py_isspace_def less_eq_char_def char_eq_nat [of _ "CHR '' ''"] of_char_lower_char
  by auto

lemma lowered_alnum: "is_alnum (lower_char c) = is_lower_alnum (lower_char c)"
  unfolding is_alnum_def is_lower_alnum_def less_eq_char_def of_char_lower_char
  by auto

lemma space_not_alnum: "py_isspace c \<Longrightarrow> \<not> is_lower_alnum c"
  unfolding py_isspace_def is_lower_alnum_def less_eq_char_def char_eq_nat [of _ "CHR '' ''"]
  by auto

lemma hyphen_not_alnum: "\<not> is_lower_alnum (CHR ''-'')"
  by (simp add: is_lower_alnum_def)

lemma lower_strip_space:
  "lower_ascii (strip_chars py_isspace s) = strip_chars py_isspace (lower_ascii s)"
proof -
  have c: "py_isspace \<circ> lower_char = py_isspace"
    by (simp add: fun_eq_iff py_isspace_lower)
  show ?thesis
    by (simp add: lower_ascii_map strip_chars_def rstrip_chars_def dropWhile_map rev_map c)
qed

lemma set_strip_chars: "set (strip_chars p s) \<subseteq> set s"
  by (auto simp: strip_chars_def rstrip_chars_def dest!: set_dropWhileD)

text \<open>
  C9. For every input string (and whatever the NFKD normalization does), the \<open>slugify\<close> of
  the CSV pipeline and the \<open>slugify\<close> of the workbook pipeline return the same string.
\<close>

theorem slugify_agree: "slugify_csv nfkd s = slugify_xlsx nfkd s"
proof -
  define t where "t = lower_ascii (ascii_ignore (nfkd s))"
  let ?d = "\<lambda>c. c = CHR ''-''"
  let ?NL = "\<lambda>c. \<not> is_lower_alnum c"
  let ?NA = "\<lambda>c. \<not> is_alnum c"
  have 1: "lower_ascii (strip_chars py_isspace (ascii_ignore (nfkd s))) = strip_chars py_isspace t"
    by (simp add: t_def lower_strip_space)
  have "c \<in> set (strip_chars py_isspace t) \<Longrightarrow> (\<not> is_alnum c) = (\<not> is_lower_alnum c)" for c
  proof -
    assume "c \<in> set (strip_chars py_isspace t)"
    then have "c \<in> set t" using set_strip_chars by blast
    then obtain b where "c = lower_char b" by (auto simp: t_def lower_ascii_map)
    then show ?thesis by (simp add: lowered_alnum)
  qed
  then have 2: "sub_runs ?NA (strip_chars py_isspace t) = sub_runs ?NL (strip_chars py_isspace t)"
    by (rule sub_runs_cong)
  have 3: "sub_dashes (sub_runs ?NL (strip_chars py_isspace t)) = sub_runs ?NL (strip_chars py_isspace t)"
    by (rule sub_dashes_sub_runs) (rule hyphen_not_alnum)
  have 4: "strip_chars ?d (sub_runs ?NL (strip_chars py_isspace t)) = strip_chars ?d (sub_runs ?NL t)"
    by (rule strip_sub_runs_strip) (simp_all add: hyphen_not_alnum space_not_alnum)
  have "slugify_xlsx nfkd s = strip_chars ?d (sub_dashes (sub_runs ?NA (strip_chars py_isspace t)))"
    by (simp add: slugify_xlsx_def Let_def 1)
  also have "\<dots> = strip_chars ?d (sub_runs ?NL t)"
    by (simp only: 2 3 4)
  also have "\<dots> = slugify_csv nfkd s"
    by (simp add: slugify_csv_def Let_def t_def)
  finally show ?thesis by simp
qed


theorem slugify_agree_witness:
  "slugify_csv id ''  Stability Ball -- Russian Twist! '' = ''stability-ball-russian-twist'' \<and>
   slugify_xlsx id ''  Stability Ball -- Russian Twist! '' = ''stability-ball-russian-twist''"
proof -
  have "slugify_csv id ''  Stability Ball -- Russian Twist! '' = ''stability-ball-russian-twist''"
    by code_simp
  with slugify_agree [of id "''  Stability Ball -- Russian Twist! ''"] show ?thesis by simp
qed

end
